theory Spec2Isabelle
  imports Main "HOL-Library.Word"
begin

section \<open>The allocator of functions.c over a header store\<close>

text \<open>
  The allocator threads a singly linked chain of block headers through one static byte
  array. The model keeps what the allocator itself reads and writes: the three fields of
  every header, the tail pointer \<^verbatim>\<open>last\<close>, the counter \<^verbatim>\<open>freespace\<close> and the flag
  \<^verbatim>\<open>first\<close>.

  \<^item> \<^verbatim>\<open>size_t\<close> and pointers are 64-bit words (the code prints \<^verbatim>\<open>size_t\<close> with
    \<^verbatim>\<open>%lu\<close>): \<open>+\<close> and \<open>-\<close> wrap, \<open>\<le>\<close> and \<open><\<close> compare unsigned, \<^verbatim>\<open>NULL\<close> is 0.
  \<^item> The store maps the address of a header to its fields. It is granular at the level of
    headers: two headers at different addresses are different cells, and payload bytes are
    not part of the store (so \<^verbatim>\<open>memcpy\<close> and the zero fill of \<^verbatim>\<open>my_calloc\<close> do not
    appear). The static array starts zeroed, so every cell starts as size 0, not free,
    next \<^verbatim>\<open>NULL\<close>. The store and the bytes of the C array agree as long as every
    header that is written lies inside the array and overlaps no other header.
    \<^verbatim>\<open>my_free\<close>, \<^verbatim>\<open>fuse\<close> and the sweep write only headers of the chain;
    \<^verbatim>\<open>split\<close>, \<^verbatim>\<open>my_malloc\<close> and \<^verbatim>\<open>my_realloc\<close> create headers, and the
    theorems that follow a new header carry the conditions under which it lies inside a
    block or inside the part of the array that no block has claimed (\<open>laid_out\<close>,
    \<open>placed\<close> and \<open>resizable\<close> below).
  \<^item> The flag \<^verbatim>\<open>free\<close> only ever receives 0 or 1, so it is a boolean.
  \<^item> \<^verbatim>\<open>functions.h\<close> is not among the sources: \<^verbatim>\<open>BUFF_SIZE\<close>, \<^verbatim>\<open>THRESHOLD\<close>,
    \<^verbatim>\<open>sizeof(metadata)\<close> and the address of the array are parameters of the model.
  \<^item> Dereferencing \<^verbatim>\<open>NULL\<close> is the fault \<open>NullDeref\<close>; a loop that does not end is the
    value \<open>None\<close>.
\<close>

type_synonym size_t = "64 word"
type_synonym addr = "64 word"

record metadata =
  msize :: size_t
  mfree :: bool
  mnext :: addr

record config =
  BUFF_SIZE :: size_t
  THRESHOLD :: size_t
  META :: size_t
  heap_base :: addr

record state =
  mem :: "addr \<Rightarrow> metadata"
  lastp :: addr
  freespace :: size_t
  first :: bool

datatype fault = NullDeref

type_synonym 'a result = "(fault + 'a) option"

text \<open>What \<^verbatim>\<open>my_free\<close> prints about its argument.\<close>

datatype report = NoReport | FreeFor size_t | InvalidAddress

text \<open>What \<^verbatim>\<open>my_realloc\<close> hands back: a pointer, or nothing when control reaches the
  closing brace without a \<^verbatim>\<open>return\<close>.\<close>

datatype retval = Ret addr | NoValue

definition zero_metadata :: metadata where
  "zero_metadata = \<lparr>msize = 0, mfree = False, mnext = 0\<rparr>"

definition init :: "config \<Rightarrow> state" where
  "init cfg = \<lparr>mem = (\<lambda>_. zero_metadata), lastp = 0, freespace = BUFF_SIZE cfg, first = True\<rparr>"

subsection \<open>Field updates and sequencing\<close>

definition set_size :: "state \<Rightarrow> addr \<Rightarrow> size_t \<Rightarrow> state" where
  "set_size s p v = s\<lparr>mem := (mem s)(p := (mem s p)\<lparr>msize := v\<rparr>)\<rparr>"

definition set_free :: "state \<Rightarrow> addr \<Rightarrow> bool \<Rightarrow> state" where
  "set_free s p v = s\<lparr>mem := (mem s)(p := (mem s p)\<lparr>mfree := v\<rparr>)\<rparr>"

definition set_next :: "state \<Rightarrow> addr \<Rightarrow> addr \<Rightarrow> state" where
  "set_next s p v = s\<lparr>mem := (mem s)(p := (mem s p)\<lparr>mnext := v\<rparr>)\<rparr>"

definition deref :: "addr \<Rightarrow> 'a result \<Rightarrow> 'a result" where
  "deref p k = (if p = 0 then Some (Inl NullDeref) else k)"

definition bindR :: "'a result \<Rightarrow> ('a \<Rightarrow> 'b result) \<Rightarrow> 'b result" where
  "bindR m k = (case m of None \<Rightarrow> None | Some (Inl e) \<Rightarrow> Some (Inl e) | Some (Inr x) \<Rightarrow> k x)"

definition ok :: "'a \<Rightarrow> 'a result" where
  "ok x = Some (Inr x)"

subsection \<open>search_freespace\<close>

partial_function (option) search_loop :: "(addr \<Rightarrow> metadata) \<Rightarrow> size_t \<Rightarrow> addr \<Rightarrow> addr option" where
  "search_loop m sz temp =
     (if temp \<noteq> 0 \<and> \<not> (mfree (m temp) \<and> sz \<le> msize (m temp))
      then search_loop m sz (mnext (m temp))
      else Some temp)"

definition search_freespace :: "config \<Rightarrow> state \<Rightarrow> size_t \<Rightarrow> addr option" where
  "search_freespace cfg s sz = search_loop (mem s) sz (heap_base cfg)"

subsection \<open>fuse\<close>

partial_function (option) fuse_loop :: "config \<Rightarrow> state \<Rightarrow> addr \<Rightarrow> state option" where
  "fuse_loop cfg s ptr =
     (if mnext (mem s ptr) \<noteq> 0 \<and> mfree (mem s (mnext (mem s ptr)))
      then
        (let s1 = set_size s ptr (msize (mem s ptr) + (msize (mem s (mnext (mem s ptr))) + META cfg));
             s2 = set_next s1 ptr (mnext (mem s1 (mnext (mem s1 ptr))));
             s3 = s2\<lparr>freespace := freespace s2 + META cfg\<rparr>
         in fuse_loop cfg s3 ptr)
      else Some (if mnext (mem s ptr) = 0 then s\<lparr>lastp := ptr\<rparr> else s))"

definition fuse :: "config \<Rightarrow> state \<Rightarrow> addr \<Rightarrow> state result" where
  "fuse cfg s ptr = deref ptr (map_option Inr (fuse_loop cfg s ptr))"

subsection \<open>split\<close>

definition split :: "config \<Rightarrow> state \<Rightarrow> addr \<Rightarrow> size_t \<Rightarrow> state result" where
  "split cfg s ptr sz =
     (let chunk = ptr + (META cfg + sz) in
      deref ptr (deref chunk
        (let s1 = set_next s chunk (mnext (mem s ptr));
             s2 = set_next s1 ptr chunk;
             s3 = set_free s2 chunk True;
             s4 = set_size s3 chunk (msize (mem s3 ptr) - (sz + META cfg));
             s5 = set_size s4 ptr sz
         in ok (if mnext (mem s5 chunk) = 0 then s5\<lparr>lastp := chunk\<rparr> else s5))))"

subsection \<open>deframent_my_heap\<close>

partial_function (option) defrag_loop :: "config \<Rightarrow> state \<Rightarrow> addr \<Rightarrow> state result" where
  "defrag_loop cfg s temp =
     (if temp \<noteq> 0
      then
        (if mnext (mem s temp) \<noteq> 0 \<and> mfree (mem s temp) \<and> mfree (mem s (mnext (mem s temp)))
         then (case fuse cfg s temp of
                 None \<Rightarrow> None
               | Some (Inl e) \<Rightarrow> Some (Inl e)
               | Some (Inr s') \<Rightarrow> defrag_loop cfg s' (mnext (mem s' temp)))
         else defrag_loop cfg s (mnext (mem s temp)))
      else ok s)"

definition deframent_my_heap :: "config \<Rightarrow> state \<Rightarrow> state result" where
  "deframent_my_heap cfg s = defrag_loop cfg s (heap_base cfg)"

subsection \<open>verifyBlockAddress\<close>

partial_function (option) verify_loop ::
    "(addr \<Rightarrow> metadata) \<Rightarrow> addr \<Rightarrow> addr \<Rightarrow> addr \<Rightarrow> (bool \<times> addr) option" where
  "verify_loop m to_free prev temp =
     (if temp \<noteq> 0
      then (if to_free = temp then Some (True, prev)
            else verify_loop m to_free temp (mnext (m temp)))
      else Some (False, prev))"

definition verifyBlockAddress :: "config \<Rightarrow> state \<Rightarrow> addr \<Rightarrow> addr \<Rightarrow> (bool \<times> addr) option" where
  "verifyBlockAddress cfg s to_free prev = verify_loop (mem s) to_free prev (heap_base cfg)"

subsection \<open>my_malloc\<close>

definition my_malloc :: "config \<Rightarrow> state \<Rightarrow> size_t \<Rightarrow> (addr \<times> state) result" where
  "my_malloc cfg s sz =
     (if sz = 0 then ok (0, s)
      else
        bindR
          (if \<not> first s then
             (case search_freespace cfg s sz of
                None \<Rightarrow> None
              | Some found \<Rightarrow>
                  if found = 0 then
                    deref (lastp s)
                      (let block = msize (mem s (lastp s)) + (lastp s + META cfg);
                           s1 = set_next s (lastp s) block;
                           s2 = s1\<lparr>lastp := block\<rparr>
                       in deref block
                            (let s3 = set_next s2 block 0;
                                 s4 = set_size s3 block sz
                             in ok (block, s4\<lparr>freespace := freespace s4 - (sz + META cfg)\<rparr>)))
                  else if sz + THRESHOLD cfg \<le> msize (mem s found) then
                    bindR (split cfg (s\<lparr>freespace := freespace s - msize (mem s found)\<rparr>) found sz)
                      (\<lambda>s1. deref (mnext (mem s1 found))
                         (ok (found,
                              s1\<lparr>freespace := freespace s1 + msize (mem s1 (mnext (mem s1 found)))\<rparr>)))
                  else ok (found, s\<lparr>freespace := freespace s - sz\<rparr>))
           else
             (let s1 = s\<lparr>first := False\<rparr>;
                  block = heap_base cfg
              in deref block
                   (let s2 = set_size s1 block sz;
                        s3 = set_next s2 block 0;
                        s4 = s3\<lparr>lastp := block\<rparr>
                    in ok (block, s4\<lparr>freespace := freespace s4 - (sz + META cfg)\<rparr>))))
          (\<lambda>(block, s'). ok (block + META cfg, set_free s' block False)))"

subsection \<open>my_free\<close>

definition my_free :: "config \<Rightarrow> state \<Rightarrow> addr \<Rightarrow> (report \<times> state) result" where
  "my_free cfg s ptr =
     (if ptr = 0 then ok (NoReport, s)
      else
        (let to_free = ptr - META cfg;
             prev = 0
         in
           if heap_base cfg \<le> to_free \<and> to_free \<le> lastp s then
             (case verifyBlockAddress cfg s to_free prev of
                None \<Rightarrow> None
              | Some (valid, prev) \<Rightarrow>
                  if valid then
                    (let s1 = set_free s to_free True;
                         s2 = s1\<lparr>freespace := freespace s1 + msize (mem s1 to_free)\<rparr>
                     in bindR (fuse cfg s2 to_free) (\<lambda>s3.
                        bindR (if prev \<noteq> 0 \<and> mfree (mem s3 prev) then fuse cfg s3 prev else ok s3) (\<lambda>s4.
                        bindR (deframent_my_heap cfg s4) (\<lambda>s5.
                        ok (FreeFor (msize (mem s to_free)), s5)))))
                  else
                    bindR (deframent_my_heap cfg s) (\<lambda>s1. ok (InvalidAddress, s1)))
           else
             bindR (deframent_my_heap cfg s) (\<lambda>s1. ok (InvalidAddress, s1))))"

subsection \<open>my_realloc\<close>

definition realloc_fallback :: "config \<Rightarrow> state \<Rightarrow> addr \<Rightarrow> size_t \<Rightarrow> (retval \<times> state) result" where
  "realloc_fallback cfg s block sz =
     bindR (my_malloc cfg s sz) (\<lambda>(chunk, s1).
     bindR (my_free cfg s1 (block + META cfg)) (\<lambda>(r, s2).
     ok (Ret chunk, s2)))"

definition my_realloc :: "config \<Rightarrow> state \<Rightarrow> addr \<Rightarrow> size_t \<Rightarrow> (retval \<times> state) result" where
  "my_realloc cfg s ptr sz =
     (if ptr = 0 then bindR (my_malloc cfg s sz) (\<lambda>(p, s1). ok (Ret p, s1))
      else if sz = 0 then bindR (my_free cfg s ptr) (\<lambda>(r, s1). ok (Ret 0, s1))
      else
        (let block = ptr - META cfg in
         deref block
           (if msize (mem s block) < sz then
              deref (mnext (mem s block))
                (if mfree (mem s (mnext (mem s block)))
                    \<and> sz - msize (mem s block) - META cfg \<le> msize (mem s (mnext (mem s block)))
                 then
                   (let s1 = set_size s block
                               (msize (mem s block) + (META cfg + msize (mem s (mnext (mem s block)))));
                        s2 = s1\<lparr>freespace := freespace s1 - msize (mem s1 (mnext (mem s1 block)))\<rparr>;
                        s3 = (if mnext (mem s2 (mnext (mem s2 block))) = 0 then s2\<lparr>lastp := block\<rparr> else s2);
                        s4 = set_next s3 block (mnext (mem s3 (mnext (mem s3 block))))
                    in
                      if sz + THRESHOLD cfg \<le> msize (mem s4 block) then
                        bindR (split cfg s4 block sz) (\<lambda>s5.
                          deref (mnext (mem s5 block))
                            (ok (Ret (block + META cfg),
                                 s5\<lparr>freespace := freespace s5 + msize (mem s5 (mnext (mem s5 block)))\<rparr>)))
                      else ok (Ret (block + META cfg), s4))
                 else realloc_fallback cfg s block sz)
            else if sz < msize (mem s block) then
              (if sz + THRESHOLD cfg \<le> msize (mem s block) then
                 bindR (split cfg s block sz) (\<lambda>s1.
                   deref (mnext (mem s1 block))
                     (ok (Ret (block + META cfg),
                          s1\<lparr>freespace := freespace s1 + msize (mem s1 (mnext (mem s1 block)))\<rparr>)))
               else realloc_fallback cfg s block sz)
            else ok (NoValue, s))))"

definition free_space_in_my_heap :: "state \<Rightarrow> size_t" where
  "free_space_in_my_heap s = freespace s"

declare search_loop.simps [code]
declare fuse_loop.simps [code]
declare defrag_loop.simps [code]
declare verify_loop.simps [code]

section \<open>The chain of headers as a list of addresses\<close>

text \<open>
  \<open>path m p as q\<close>: following \<^verbatim>\<open>next\<close> from \<open>p\<close> visits exactly the headers \<open>as\<close>, none of
  them \<^verbatim>\<open>NULL\<close>, and arrives at \<open>q\<close>. A chain is a path that ends in \<^verbatim>\<open>NULL\<close>.
\<close>

fun path :: "(addr \<Rightarrow> metadata) \<Rightarrow> addr \<Rightarrow> addr list \<Rightarrow> addr \<Rightarrow> bool" where
  "path m p [] q = (p = q)"
| "path m p (a # as) q = (p = a \<and> a \<noteq> 0 \<and> path m (mnext (m a)) as q)"

definition chain :: "(addr \<Rightarrow> metadata) \<Rightarrow> addr \<Rightarrow> addr list \<Rightarrow> bool" where
  "chain m p as = path m p as 0"

text \<open>The block a first-fit search is looking for.\<close>

definition fits :: "(addr \<Rightarrow> metadata) \<Rightarrow> size_t \<Rightarrow> addr \<Rightarrow> bool" where
  "fits m sz a = (mfree (m a) \<and> sz \<le> msize (m a))"

fun no_adjacent_free :: "(addr \<Rightarrow> metadata) \<Rightarrow> addr list \<Rightarrow> bool" where
  "no_adjacent_free m (a # b # as) = (\<not> (mfree (m a) \<and> mfree (m b)) \<and> no_adjacent_free m (b # as))"
| "no_adjacent_free m as = True"

text \<open>Sum of the payload sizes of the free blocks of a chain.\<close>

definition free_total :: "(addr \<Rightarrow> metadata) \<Rightarrow> addr list \<Rightarrow> size_t" where
  "free_total m as = sum_list (map (\<lambda>a. msize (m a)) (filter (\<lambda>a. mfree (m a)) as))"

text \<open>Sum of the payload sizes of the allocated blocks of a chain.\<close>

definition allocated_total :: "(addr \<Rightarrow> metadata) \<Rightarrow> addr list \<Rightarrow> size_t" where
  "allocated_total m as = sum_list (map (\<lambda>a. msize (m a)) (filter (\<lambda>a. \<not> mfree (m a)) as))"

text \<open>One header per block.\<close>

definition header_total :: "config \<Rightarrow> addr list \<Rightarrow> size_t" where
  "header_total cfg as = of_nat (length as) * META cfg"

text \<open>A configuration for running the code: a 1000-byte array at address 4096, headers of
  24 bytes (a \<^verbatim>\<open>size_t\<close>, an \<^verbatim>\<open>int\<close> and a pointer on LP64), threshold 32.\<close>

definition cfg_ex :: config where
  "cfg_ex = \<lparr>BUFF_SIZE = 1000, THRESHOLD = 32, META = 24, heap_base = 4096\<rparr>"

text \<open>The three terms of the conservation property over a chain.\<close>

definition conservation_total :: "config \<Rightarrow> state \<Rightarrow> addr list \<Rightarrow> size_t" where
  "conservation_total cfg s as =
     free_space_in_my_heap s + allocated_total (mem s) as + header_total cfg as"

text \<open>
  The bytes of the array that no block has claimed yet: the capacity less the header and the
  payload of every block.
\<close>

definition unclaimed :: "config \<Rightarrow> (addr \<Rightarrow> metadata) \<Rightarrow> addr list \<Rightarrow> size_t" where
  "unclaimed cfg m as = BUFF_SIZE cfg - sum_list (map (\<lambda>a. META cfg + msize (m a)) as)"

text \<open>The counter equals the free payloads plus the unclaimed bytes.\<close>

definition counter_tracks :: "config \<Rightarrow> state \<Rightarrow> addr list \<Rightarrow> bool" where
  "counter_tracks cfg s as =
     (free_space_in_my_heap s = free_total (mem s) as + unclaimed cfg (mem s) as)"

text \<open>
  After the first allocation the blocks are the chain from the base, which is not empty and
  whose last block is the tail.
\<close>

definition shaped :: "config \<Rightarrow> state \<Rightarrow> addr list \<Rightarrow> bool" where
  "shaped cfg s as =
     (\<not> first s \<and> chain (mem s) (heap_base cfg) as \<and> as \<noteq> [] \<and> lastp s = last as)"

text \<open>
  Where the blocks lie. The array occupies the addresses from \<open>heap_base\<close> up to
  \<open>arena_end\<close>; a block occupies its header and its payload, up to \<open>block_end\<close>. The blocks
  \<open>as\<close> tile the array from \<open>pos\<close> when the first one starts at \<open>pos\<close> and each next one
  starts where the one before it ends; \<open>span_end\<close> is where the last one ends. They are laid
  out in the array when they tile it from the base and end inside it. Then every header is
  inside the array and no two headers, nor a header and a payload, overlap: this is where
  the header store and the bytes of the C array agree.
\<close>

definition arena_end :: "config \<Rightarrow> nat" where
  "arena_end cfg = unat (heap_base cfg) + unat (BUFF_SIZE cfg)"

definition sane :: "config \<Rightarrow> bool" where
  "sane cfg = (heap_base cfg \<noteq> 0 \<and> 0 < META cfg \<and> arena_end cfg < 2 ^ 64)"

definition block_end :: "config \<Rightarrow> (addr \<Rightarrow> metadata) \<Rightarrow> addr \<Rightarrow> nat" where
  "block_end cfg m a = unat a + unat (META cfg) + unat (msize (m a))"

fun tiles :: "config \<Rightarrow> (addr \<Rightarrow> metadata) \<Rightarrow> nat \<Rightarrow> addr list \<Rightarrow> bool" where
  "tiles cfg m pos [] = True"
| "tiles cfg m pos (a # as) = (unat a = pos \<and> tiles cfg m (block_end cfg m a) as)"

fun span_end :: "config \<Rightarrow> (addr \<Rightarrow> metadata) \<Rightarrow> nat \<Rightarrow> addr list \<Rightarrow> nat" where
  "span_end cfg m pos [] = pos"
| "span_end cfg m pos (a # as) = span_end cfg m (block_end cfg m a) as"

definition laid_out :: "config \<Rightarrow> (addr \<Rightarrow> metadata) \<Rightarrow> addr list \<Rightarrow> bool" where
  "laid_out cfg m as =
     (tiles cfg m (unat (heap_base cfg)) as \<and> span_end cfg m (unat (heap_base cfg)) as \<le> arena_end cfg)"

text \<open>
  The state between two calls: before the first allocation it is the initial state and there
  is no block; afterwards the blocks are the chain, laid out in the array. In both the
  counter equals the free payloads plus the unclaimed bytes.
\<close>

definition formed :: "config \<Rightarrow> state \<Rightarrow> addr list \<Rightarrow> bool" where
  "formed cfg s as = (shaped cfg s as \<and> laid_out cfg (mem s) as)"

definition tracked :: "config \<Rightarrow> state \<Rightarrow> addr list \<Rightarrow> bool" where
  "tracked cfg s as =
     ((if first s then s = init cfg \<and> as = [] else formed cfg s as)
      \<and> counter_tracks cfg s as)"

text \<open>
  The condition on a call \<^verbatim>\<open>my_malloc(n)\<close>: the request fits. A block that the call creates
  (at the base, or where the tail block ends) lies inside the array with its payload; a block
  that the call splits has room for the request and one more header; and a block handed out
  without a split has exactly \<open>n\<close> bytes.
\<close>

definition placed :: "config \<Rightarrow> state \<Rightarrow> addr list \<Rightarrow> size_t \<Rightarrow> bool" where
  "placed cfg s as n =
     (if n = 0 then True
      else if first s then unat (META cfg) + unat n \<le> unat (BUFF_SIZE cfg)
      else case List.find (fits (mem s) n) as of
        None \<Rightarrow> block_end cfg (mem s) (lastp s) + unat (META cfg) + unat n \<le> arena_end cfg
      | Some b \<Rightarrow>
          if n + THRESHOLD cfg \<le> msize (mem s b)
          then unat n + unat (META cfg) \<le> unat (msize (mem s b))
          else msize (mem s b) = n)"

text \<open>The condition on a call \<^verbatim>\<open>my_free(ptr)\<close>: the pointer is not the payload of a block
  of the chain that is free already.\<close>

definition releasable :: "config \<Rightarrow> state \<Rightarrow> addr list \<Rightarrow> addr \<Rightarrow> bool" where
  "releasable cfg s as ptr = (ptr - META cfg \<in> set as \<and> \<not> mfree (mem s (ptr - META cfg))
      \<or> ptr - META cfg \<notin> set as)"

text \<open>
  The condition on a call \<^verbatim>\<open>my_realloc(ptr, n)\<close>. With a null pointer it is that of
  \<^verbatim>\<open>my_malloc(n)\<close>, with \<open>n = 0\<close> that of \<^verbatim>\<open>my_free(ptr)\<close>. Otherwise the pointer is the
  payload of an allocated block of the chain, and: to grow, the block is not the tail, a
  split after growing in place has room for the request and one more header, and the
  fallback allocation fits; to shrink, the block is split and has room for the request and
  one more header. Resizing to the size the block has needs nothing more. The fallback
  copies as many bytes as the old block has into the new one: when the block grows these are
  payload bytes of the new block, so no header is written; when it shrinks the copy runs
  past the new payload, and the condition leaves that path out.
\<close>

definition resizable :: "config \<Rightarrow> state \<Rightarrow> addr list \<Rightarrow> addr \<Rightarrow> size_t \<Rightarrow> bool" where
  "resizable cfg s as ptr n =
     (if ptr = 0 then placed cfg s as n
      else if n = 0 then releasable cfg s as ptr
      else
        (let block = ptr - META cfg; nx = mnext (mem s block);
             grown = msize (mem s block) + (META cfg + msize (mem s nx)) in
         block \<in> set as \<and> \<not> mfree (mem s block) \<and>
         (if msize (mem s block) < n then
            nx \<noteq> 0 \<and>
            (if mfree (mem s nx) \<and> n - msize (mem s block) - META cfg \<le> msize (mem s nx)
             then (if n + THRESHOLD cfg \<le> grown then unat n + unat (META cfg) \<le> unat grown
                   else True)
             else placed cfg s as n)
          else if n < msize (mem s block) then
            n + THRESHOLD cfg \<le> msize (mem s block)
            \<and> unat n + unat (META cfg) \<le> unat (msize (mem s block))
          else True)))"

text \<open>A second configuration, with the threshold below the size of a header: a 100-byte
  array at address 4096, headers of 24 bytes, threshold 8.\<close>

definition cfg_small :: config where
  "cfg_small = \<lparr>BUFF_SIZE = 100, THRESHOLD = 8, META = 24, heap_base = 4096\<rparr>"

text \<open>
  Three states of the 1000-byte configuration \<open>cfg_ex\<close>. \<open>st_one_free\<close> is the arena after
  three allocations of 100, 50 and 10 bytes and the release of the second block. \<open>st_adj\<close>
  is what it becomes when the first block is then resized down to 20 bytes: the split leaves
  a free remainder right before the free second block. \<open>st_free_tail\<close> is the arena after
  two allocations of 100 and 50 bytes and the release of the second block: its tail block is
  free.
\<close>

definition st_one_free :: state where
  "st_one_free = \<lparr>mem = (\<lambda>_. zero_metadata)
       (4096 := \<lparr>msize = 100, mfree = False, mnext = 4220\<rparr>,
        4220 := \<lparr>msize = 50, mfree = True, mnext = 4294\<rparr>,
        4294 := \<lparr>msize = 10, mfree = False, mnext = 0\<rparr>),
     lastp = 4294, freespace = 818, first = False\<rparr>"

definition st_adj :: state where
  "st_adj = \<lparr>mem = (\<lambda>_. zero_metadata)
       (4096 := \<lparr>msize = 20, mfree = False, mnext = 4140\<rparr>,
        4140 := \<lparr>msize = 56, mfree = True, mnext = 4220\<rparr>,
        4220 := \<lparr>msize = 50, mfree = True, mnext = 4294\<rparr>,
        4294 := \<lparr>msize = 10, mfree = False, mnext = 0\<rparr>),
     lastp = 4294, freespace = 874, first = False\<rparr>"

definition st_free_tail :: state where
  "st_free_tail = \<lparr>mem = (\<lambda>_. zero_metadata)
       (4096 := \<lparr>msize = 100, mfree = False, mnext = 4220\<rparr>,
        4220 := \<lparr>msize = 50, mfree = True, mnext = 0\<rparr>),
     lastp = 4220, freespace = 852, first = False\<rparr>"

section \<open>Running the code\<close>

lemmas run_simps =
  my_malloc_def my_free_def my_realloc_def realloc_fallback_def split_def fuse_def
  deframent_my_heap_def verifyBlockAddress_def search_freespace_def
  bindR_def ok_def deref_def set_size_def set_next_def set_free_def init_def cfg_ex_def
  zero_metadata_def free_space_in_my_heap_def
  search_loop.simps fuse_loop.simps defrag_loop.simps verify_loop.simps

lemmas measure_simps =
  chain_def free_total_def allocated_total_def header_total_def conservation_total_def fits_def

lemma bindR_ok [simp]: "bindR (ok x) k = k x"
  by (simp add: bindR_def ok_def)

lemma st_one_free_reached:
  "bindR (my_malloc cfg_ex (init cfg_ex) 100) (\<lambda>(p1, s1).
   bindR (my_malloc cfg_ex s1 50) (\<lambda>(p2, s2).
   bindR (my_malloc cfg_ex s2 10) (\<lambda>(p3, s3).
   bindR (my_free cfg_ex s3 p2) (\<lambda>(r, s4). ok (p1, p2, p3, r, s4)))))
   = ok (4120, 4244, 4318, FreeFor 50, st_one_free)"
  by (simp add: run_simps st_one_free_def fun_eq_iff)


lemma st_free_tail_reached:
  "bindR (my_malloc cfg_ex (init cfg_ex) 100) (\<lambda>(p1, s1).
   bindR (my_malloc cfg_ex s1 50) (\<lambda>(p2, s2).
   bindR (my_free cfg_ex s2 p2) (\<lambda>(r, s3). ok (p1, p2, r, s3))))
   = ok (4120, 4244, FreeFor 50, st_free_tail)"
  by (simp add: run_simps st_free_tail_def fun_eq_iff)

section \<open>Chains\<close>

lemma path_nonzero: "path m p as q \<Longrightarrow> 0 \<notin> set as"
  by (induction as arbitrary: p) auto

lemma path_append: "path m p (as @ bs) q = (\<exists>r. path m p as r \<and> path m r bs q)"
  by (induction as arbitrary: p) auto

lemma path_cong:
  "(\<And>a. a \<in> set as \<Longrightarrow> mnext (m' a) = mnext (m a)) \<Longrightarrow> path m' p as q = path m p as q"
  by (induction as arbitrary: p) auto

lemma chain_Nil [simp]: "chain m p [] = (p = 0)"
  by (simp add: chain_def)

lemma chain_Cons [simp]: "chain m p (a # as) = (p = a \<and> a \<noteq> 0 \<and> chain m (mnext (m a)) as)"
  by (simp add: chain_def)

lemma chain_nonzero: "chain m p as \<Longrightarrow> 0 \<notin> set as"
  unfolding chain_def by (rule path_nonzero)

lemma chain_cong:
  "(\<And>a. a \<in> set as \<Longrightarrow> mnext (m' a) = mnext (m a)) \<Longrightarrow> chain m' p as = chain m p as"
  unfolding chain_def by (rule path_cong)

lemma chain_unique: "chain m p as \<Longrightarrow> chain m p bs \<Longrightarrow> as = bs"
proof (induction as arbitrary: p bs)
  case Nil
  then show ?case by (cases bs) auto
next
  case (Cons a as)
  then show ?case by (cases bs) auto
qed

lemma chain_append: "chain m p (as @ bs) = (\<exists>r. path m p as r \<and> chain m r bs)"
  unfolding chain_def by (rule path_append)

lemma chain_suffix: "chain m p (as @ b # bs) \<Longrightarrow> chain m b (b # bs)"
  by (induction as arbitrary: p) auto

lemma chain_hd_notin_tl:
  assumes "chain m p (a # as)"
  shows "a \<notin> set as"
proof
  assume "a \<in> set as"
  then obtain us vs where as: "as = us @ a # vs"
    by (auto simp: in_set_conv_decomp)
  from assms have c1: "chain m (mnext (m a)) as" and nz: "a \<noteq> 0" by auto
  from c1 as have "chain m a (a # vs)" using chain_suffix by blast
  then have "chain m (mnext (m a)) vs" by simp
  with c1 have "as = vs" by (rule chain_unique)
  with as show False by simp
qed

lemma chain_distinct: "chain m p as \<Longrightarrow> distinct as"
proof (induction as arbitrary: p)
  case Nil
  then show ?case by simp
next
  case (Cons a as)
  from Cons.prems have "a \<notin> set as" by (rule chain_hd_notin_tl)
  moreover from Cons.prems have "chain m (mnext (m a)) as" by simp
  ultimately show ?case using Cons.IH by simp
qed

lemma search_loop_chain:
  "chain m p as \<Longrightarrow>
   search_loop m sz p = Some (case List.find (fits m sz) as of None \<Rightarrow> 0 | Some a \<Rightarrow> a)"
proof (induction as arbitrary: p)
  case Nil
  then show ?case by (subst search_loop.simps) simp
next
  case (Cons a as)
  then show ?case by (subst search_loop.simps) (auto simp: fits_def [abs_def])
qed

lemma verify_loop_absent:
  "chain m p as \<Longrightarrow> t \<notin> set as \<Longrightarrow>
   verify_loop m t prev p = Some (False, if as = [] then prev else last as)"
proof (induction as arbitrary: p prev)
  case Nil
  then show ?case by (subst verify_loop.simps) simp
next
  case (Cons a as)
  then show ?case by (subst verify_loop.simps) auto
qed

lemma verify_loop_present:
  "path m p pre t \<Longrightarrow> t \<noteq> 0 \<Longrightarrow> t \<notin> set pre \<Longrightarrow>
   verify_loop m t prev p = Some (True, if pre = [] then prev else last pre)"
proof (induction pre arbitrary: p prev)
  case Nil
  then show ?case by (subst verify_loop.simps) simp
next
  case (Cons a pre)
  then show ?case by (subst verify_loop.simps) auto
qed

lemma fuse_loop_chain:
  assumes "chain (mem s) ptr (ptr # rest)"
  shows "\<exists>s'. fuse_loop cfg s ptr = Some s' \<and>
     chain (mem s') ptr (ptr # dropWhile (\<lambda>a. mfree (mem s a)) rest) \<and>
     (\<forall>a. a \<noteq> ptr \<longrightarrow> mem s' a = mem s a) \<and>
     mfree (mem s' ptr) = mfree (mem s ptr) \<and>
     msize (mem s' ptr) = msize (mem s ptr)
        + sum_list (map (\<lambda>a. msize (mem s a) + META cfg) (takeWhile (\<lambda>a. mfree (mem s a)) rest)) \<and>
     freespace s' = freespace s + of_nat (length (takeWhile (\<lambda>a. mfree (mem s a)) rest)) * META cfg \<and>
     lastp s' = (if dropWhile (\<lambda>a. mfree (mem s a)) rest = [] then ptr else lastp s) \<and>
     first s' = first s"
  using assms
proof (induction rest arbitrary: s)
  case Nil
  then show ?case by (subst fuse_loop.simps) simp
next
  case (Cons b bs)
  from Cons.prems have nx: "mnext (mem s ptr) = b" and bnz: "b \<noteq> 0" and pnz: "ptr \<noteq> 0"
    and cb: "chain (mem s) (mnext (mem s b)) bs" by auto
  from Cons.prems have "ptr \<notin> set (b # bs)" by (rule chain_hd_notin_tl)
  then have pb: "ptr \<noteq> b" and pbs: "ptr \<notin> set bs" by auto
  show ?case
  proof (cases "mfree (mem s b)")
    case False
    with nx bnz Cons.prems show ?thesis by (subst fuse_loop.simps) simp
  next
    case True
    define s3 where "s3 = (let s1 = set_size s ptr (msize (mem s ptr) + (msize (mem s (mnext (mem s ptr))) + META cfg));
             s2 = set_next s1 ptr (mnext (mem s1 (mnext (mem s1 ptr))))
         in s2\<lparr>freespace := freespace s2 + META cfg\<rparr>)"
    have step: "fuse_loop cfg s ptr = fuse_loop cfg s3 ptr"
      using True nx bnz by (subst fuse_loop.simps) (simp add: s3_def Let_def)
    have m3: "mem s3 = (mem s)(ptr := (mem s ptr)\<lparr>msize := msize (mem s ptr) + (msize (mem s b) + META cfg), mnext := mnext (mem s b)\<rparr>)"
      using nx pb by (simp add: s3_def Let_def set_size_def set_next_def)
    have other: "\<And>a. a \<noteq> ptr \<Longrightarrow> mem s3 a = mem s a" by (simp add: m3)
    have onbs: "\<And>a. a \<in> set bs \<Longrightarrow> mem s3 a = mem s a"
      using pbs by (auto simp: m3)
    have f3: "freespace s3 = freespace s + META cfg" "lastp s3 = lastp s" "first s3 = first s"
      by (simp_all add: s3_def Let_def set_size_def set_next_def)
    have "chain (mem s3) (mnext (mem s b)) bs = chain (mem s) (mnext (mem s b)) bs"
      by (rule chain_cong) (simp add: onbs)
    with cb pnz have c3: "chain (mem s3) ptr (ptr # bs)" by (simp add: m3)
    from Cons.IH [OF c3] obtain s' where
      r: "fuse_loop cfg s3 ptr = Some s'"
      and c: "chain (mem s') ptr (ptr # dropWhile (\<lambda>a. mfree (mem s3 a)) bs)"
      and o: "\<forall>a. a \<noteq> ptr \<longrightarrow> mem s' a = mem s3 a"
      and fr: "mfree (mem s' ptr) = mfree (mem s3 ptr)"
      and sz: "msize (mem s' ptr) = msize (mem s3 ptr)
        + sum_list (map (\<lambda>a. msize (mem s3 a) + META cfg) (takeWhile (\<lambda>a. mfree (mem s3 a)) bs))"
      and fs: "freespace s' = freespace s3 + of_nat (length (takeWhile (\<lambda>a. mfree (mem s3 a)) bs)) * META cfg"
      and la: "lastp s' = (if dropWhile (\<lambda>a. mfree (mem s3 a)) bs = [] then ptr else lastp s3)"
      and fi: "first s' = first s3" by blast
    have dw: "dropWhile (\<lambda>a. mfree (mem s3 a)) bs = dropWhile (\<lambda>a. mfree (mem s a)) bs"
      by (rule dropWhile_cong) (simp_all add: onbs)
    have tw: "takeWhile (\<lambda>a. mfree (mem s3 a)) bs = takeWhile (\<lambda>a. mfree (mem s a)) bs"
      by (rule takeWhile_cong) (simp_all add: onbs)
    have mp: "map (\<lambda>a. msize (mem s3 a) + META cfg) (takeWhile (\<lambda>a. mfree (mem s a)) bs)
        = map (\<lambda>a. msize (mem s a) + META cfg) (takeWhile (\<lambda>a. mfree (mem s a)) bs)"
      by (rule map_cong) (auto dest: set_takeWhileD simp: onbs)
    have p3: "msize (mem s3 ptr) = msize (mem s ptr) + (msize (mem s b) + META cfg)"
      "mfree (mem s3 ptr) = mfree (mem s ptr)"
      by (simp_all add: m3)
    have o': "\<forall>a. a \<noteq> ptr \<longrightarrow> mem s' a = mem s a"
      using o other by simp
    show ?thesis
      using True r c [unfolded dw] o' fr [unfolded p3] sz [unfolded tw mp p3] fs [unfolded tw f3]
        la [unfolded dw f3] fi [unfolded f3]
      by (simp add: step algebra_simps)
  qed
qed

lemma st_adj_chain: "chain (mem st_adj) (heap_base cfg_ex) [4096, 4140, 4220, 4294]"
  by (simp add: st_adj_def cfg_ex_def)

lemma st_one_free_chain: "chain (mem st_one_free) (heap_base cfg_ex) [4096, 4220, 4294]"
  by (simp add: st_one_free_def cfg_ex_def)

section \<open>The defragmentation sweep on a chain\<close>


lemma fuse_ok: "ptr \<noteq> 0 \<Longrightarrow> fuse_loop cfg s ptr = Some s' \<Longrightarrow> fuse cfg s ptr = ok s'"
  by (simp add: fuse_def deref_def ok_def)

lemma no_adjacent_free_cong:
  "(\<And>a. a \<in> set as \<Longrightarrow> mfree (m' a) = mfree (m a)) \<Longrightarrow>
   no_adjacent_free m' as = no_adjacent_free m as"
  by (induction m as rule: no_adjacent_free.induct) auto

lemma no_adjacent_free_Cons:
  "no_adjacent_free m (a # as) =
     ((as = [] \<or> \<not> (mfree (m a) \<and> mfree (m (hd as)))) \<and> no_adjacent_free m as)"
  by (cases as) auto

lemma defrag_loop_id:
  "chain (mem s) p as \<Longrightarrow> no_adjacent_free (mem s) as \<Longrightarrow> defrag_loop cfg s p = ok s"
proof (induction as arbitrary: p)
  case Nil
  then show ?case by (subst defrag_loop.simps) simp
next
  case (Cons a as)
  from Cons.prems have c: "chain (mem s) (mnext (mem s a)) as" and pa: "p = a" "a \<noteq> 0" by auto
  from Cons.prems have naf: "no_adjacent_free (mem s) as"
    by (simp add: no_adjacent_free_Cons)
  have "\<not> (mnext (mem s a) \<noteq> 0 \<and> mfree (mem s a) \<and> mfree (mem s (mnext (mem s a))))"
  proof (cases as)
    case Nil
    with c show ?thesis by simp
  next
    case (Cons b bs)
    with c have "mnext (mem s a) = b" by simp
    with Cons Cons.prems(2) show ?thesis by simp
  qed
  then have "defrag_loop cfg s p = defrag_loop cfg s (mnext (mem s a))"
    using pa by (subst defrag_loop.simps) auto
  with Cons.IH [OF c naf] show ?case by simp
qed



section \<open>my_free on a chain\<close>

lemma fuse_in_chain:
  assumes "chain (mem s) p (pre @ a # post)"
  shows "\<exists>s'. fuse cfg s a = ok s' \<and>
     chain (mem s') p (pre @ a # dropWhile (\<lambda>b. mfree (mem s b)) post) \<and>
     (\<forall>b. b \<noteq> a \<longrightarrow> mem s' b = mem s b) \<and>
     mfree (mem s' a) = mfree (mem s a) \<and>
     msize (mem s' a) = msize (mem s a)
        + sum_list (map (\<lambda>b. msize (mem s b) + META cfg) (takeWhile (\<lambda>b. mfree (mem s b)) post)) \<and>
     freespace s' = freespace s + of_nat (length (takeWhile (\<lambda>b. mfree (mem s b)) post)) * META cfg \<and>
     lastp s' = (if dropWhile (\<lambda>b. mfree (mem s b)) post = [] then a else lastp s) \<and>
     first s' = first s"
proof -
  from assms have pp: "path (mem s) p pre a" and ca: "chain (mem s) a (a # post)"
    by (auto simp: chain_append)
  from ca have anz: "a \<noteq> 0" by simp
  from assms have "distinct (pre @ a # post)" by (rule chain_distinct)
  then have apre: "a \<notin> set pre" by auto
  from fuse_loop_chain [OF ca, of cfg] obtain s' where
    f: "fuse_loop cfg s a = Some s'"
    and c: "chain (mem s') a (a # dropWhile (\<lambda>b. mfree (mem s b)) post)"
    and o: "\<forall>b. b \<noteq> a \<longrightarrow> mem s' b = mem s b"
    and rest: "mfree (mem s' a) = mfree (mem s a)"
      "msize (mem s' a) = msize (mem s a)
        + sum_list (map (\<lambda>b. msize (mem s b) + META cfg) (takeWhile (\<lambda>b. mfree (mem s b)) post))"
      "freespace s' = freespace s + of_nat (length (takeWhile (\<lambda>b. mfree (mem s b)) post)) * META cfg"
      "lastp s' = (if dropWhile (\<lambda>b. mfree (mem s b)) post = [] then a else lastp s)"
      "first s' = first s" by blast
  have "path (mem s') p pre a = path (mem s) p pre a"
    by (rule path_cong) (use apre o in auto)
  with pp c have "chain (mem s') p (pre @ a # dropWhile (\<lambda>b. mfree (mem s b)) post)"
    by (auto simp: chain_append)
  with fuse_ok [OF anz f] o rest show ?thesis by blast
qed


lemma my_free_invalid:
  assumes ch: "chain (mem s) (heap_base cfg) as" and nz: "ptr \<noteq> 0"
    and inv: "\<not> (heap_base cfg \<le> ptr - META cfg \<and> ptr - META cfg \<le> lastp s) \<or> ptr - META cfg \<notin> set as"
  shows "my_free cfg s ptr = bindR (deframent_my_heap cfg s) (\<lambda>s1. ok (InvalidAddress, s1))"
proof (cases "heap_base cfg \<le> ptr - META cfg \<and> ptr - META cfg \<le> lastp s")
  case False
  with nz show ?thesis by (auto simp: my_free_def Let_def)
next
  case True
  with inv have "ptr - META cfg \<notin> set as" by simp
  from verify_loop_absent [OF ch this]
  have "verifyBlockAddress cfg s (ptr - META cfg) 0 = Some (False, if as = [] then 0 else last as)"
    by (simp add: verifyBlockAddress_def)
  with nz True show ?thesis by (simp add: my_free_def Let_def)
qed

lemma my_free_valid:
  assumes ch: "chain (mem s) (heap_base cfg) (pre @ b # post)" and nz: "ptr \<noteq> 0"
    and b: "b = ptr - META cfg"
    and rng: "heap_base cfg \<le> b \<and> b \<le> lastp s"
    and prev: "prev = (if pre = [] then 0 else last pre)"
    and s2: "s2 = (set_free s b True)\<lparr>freespace := freespace s + msize (mem s b)\<rparr>"
  shows "my_free cfg s ptr =
     bindR (fuse cfg s2 b) (\<lambda>s3.
        bindR (if prev \<noteq> 0 \<and> mfree (mem s3 prev) then fuse cfg s3 prev else ok s3) (\<lambda>s4.
        bindR (deframent_my_heap cfg s4) (\<lambda>s5.
        ok (FreeFor (msize (mem s b)), s5))))"
proof -
  from ch have pp: "path (mem s) (heap_base cfg) pre b" and bnz: "b \<noteq> 0"
    by (auto simp: chain_append)
  from ch have "distinct (pre @ b # post)" by (rule chain_distinct)
  then have "b \<notin> set pre" by auto
  from verify_loop_present [OF pp bnz this]
  have v: "verifyBlockAddress cfg s (ptr - META cfg) 0 = Some (True, prev)"
    by (simp add: verifyBlockAddress_def b prev)
  have s2': "(let s1 = set_free s (ptr - META cfg) True
              in s1\<lparr>freespace := freespace s1 + msize (mem s1 (ptr - META cfg))\<rparr>) = s2"
    by (simp add: s2 b set_free_def)
  show ?thesis
    using nz rng unfolding my_free_def Let_def b [symmetric]
    using v [unfolded b [symmetric]] s2' [unfolded Let_def b [symmetric]]
    by simp
qed

section \<open>Deallocating the null pointer\<close>

text \<open>
  Claim C10. \<^verbatim>\<open>my_free(NULL)\<close> returns at once: nothing is printed, and the store, the tail
  pointer, the counter and the flag are those of the state before the call. A pointer that is
  not null and whose header lies outside the range from the base to the tail is reported as
  invalid, and for it the call is the defragmentation sweep.
\<close>

theorem my_free_null_returns_at_once:
  "my_free cfg s 0 = ok (NoReport, s) \<and>
   (\<forall>ptr. ptr \<noteq> 0 \<and> \<not> (heap_base cfg \<le> ptr - META cfg \<and> ptr - META cfg \<le> lastp s) \<longrightarrow>
      my_free cfg s ptr = bindR (deframent_my_heap cfg s) (\<lambda>s1. ok (InvalidAddress, s1)))"
  by (auto simp add: my_free_def Let_def)

theorem my_free_null_returns_at_once_witness:
  "my_free cfg_ex (init cfg_ex) 0 = ok (NoReport, init cfg_ex) \<and>
   my_free cfg_ex (init cfg_ex) 5000 =
     bindR (deframent_my_heap cfg_ex (init cfg_ex)) (\<lambda>s1. ok (InvalidAddress, s1))"
proof -
  have "(5000 :: addr) \<noteq> 0 \<and>
      \<not> (heap_base cfg_ex \<le> 5000 - META cfg_ex \<and> 5000 - META cfg_ex \<le> lastp (init cfg_ex))"
    by (simp add: cfg_ex_def init_def)
  with my_free_null_returns_at_once [of cfg_ex "init cfg_ex"] show ?thesis
    by blast
qed

section \<open>Resizing to the same size\<close>

text \<open>
  Claim C2. Resizing a block to the size it has is meant to hand back the same pointer. The
  code has a branch for a larger and a branch for a smaller size only: with the sizes equal,
  control reaches the end of \<^verbatim>\<open>my_realloc\<close> without a \<^verbatim>\<open>return\<close>. Here a block of 100
  bytes is allocated in the fresh arena and resized to 100: the state is left as it was, and
  no pointer comes back.
\<close>

theorem my_realloc_equal_size_returns_nothing:
  "bindR (my_malloc cfg_ex (init cfg_ex) 100) (\<lambda>(p, s).
     bindR (my_realloc cfg_ex s p 100) (\<lambda>(r, s'). ok (p, r, s' = s)))
   = ok (4120, NoValue, True)"
  by (simp add: run_simps)

section \<open>Growing the tail block\<close>

text \<open>
  Claim C3. Growing the block at the tail of the chain is meant to take the path that
  allocates, copies and frees. The code reads \<^verbatim>\<open>block->next->free\<close> before anything else,
  and the tail's \<^verbatim>\<open>next\<close> is \<^verbatim>\<open>NULL\<close>. Here the only block of the arena, 100 bytes, is
  resized to 200.
\<close>

theorem my_realloc_grow_tail_dereferences_null:
  "bindR (my_malloc cfg_ex (init cfg_ex) 100) (\<lambda>(p, s).
     ok (lastp s = p - META cfg_ex, mnext (mem s (p - META cfg_ex)), my_realloc cfg_ex s p 200))
   = ok (True, 0, Some (Inl NullDeref))"
  by (simp add: run_simps)

section \<open>Conservation\<close>

text \<open>
  Claim C1. The counter, the payloads of the allocated blocks and one header per block are
  meant to add up to the capacity after every call. The calls \<^verbatim>\<open>my_malloc(20)\<close>,
  \<^verbatim>\<open>my_malloc(10)\<close>, \<^verbatim>\<open>my_free\<close> of the first block keep the sum at the capacity 1000.
  The next call, \<^verbatim>\<open>my_malloc(15)\<close>, finds the free block of 20 bytes, which is too small to
  split: the whole block is handed out, the counter drops by 15, and the sum is 1005.
\<close>

theorem conservation_broken_by_unsplit_fit:
  "bindR (my_malloc cfg_ex (init cfg_ex) 20) (\<lambda>(p1, s1).
   bindR (my_malloc cfg_ex s1 10) (\<lambda>(p2, s2).
   bindR (my_free cfg_ex s2 p1) (\<lambda>(r, s3).
   bindR (my_malloc cfg_ex s3 15) (\<lambda>(p3, s4).
     ok (chain (mem s3) (heap_base cfg_ex) [4096, 4140],
         conservation_total cfg_ex s3 [4096, 4140],
         chain (mem s4) (heap_base cfg_ex) [4096, 4140],
         conservation_total cfg_ex s4 [4096, 4140],
         BUFF_SIZE cfg_ex)))))
   = ok (True, 1000, True, 1005, 1000)"
  by (simp add: run_simps measure_simps)

section \<open>Layout\<close>

text \<open>
  Blocks that tile the array are in ascending address order, none of them starts at address
  0 or wraps around the address space, and a header carved inside the payload of a block,
  with room for it, is a new cell that lies after that block's header and before every later
  block.
\<close>

lemma carve_address:
  fixes ptr hd sz bs :: "64 word"
  assumes "unat ptr + unat hd + unat bs < 2 ^ 64" "unat sz \<le> unat bs"
  shows "unat (ptr + (hd + sz)) = unat ptr + unat hd + unat sz"
proof -
  have "unat (hd + sz) = unat hd + unat sz"
    using assms by (simp add: unat_add_lem [THEN iffD1])
  moreover have "unat (ptr + (hd + sz)) = unat ptr + unat (hd + sz)"
    using assms calculation by (simp add: unat_add_lem [THEN iffD1])
  ultimately show ?thesis by simp
qed

lemma unat_plus:
  fixes x y :: "64 word"
  shows "unat x + unat y < 2 ^ 64 \<Longrightarrow> unat (x + y) = unat x + unat y"
  by (simp add: unat_add_lem [THEN iffD1])

lemma unat_minus:
  fixes x y :: "64 word"
  shows "unat y \<le> unat x \<Longrightarrow> unat (x - y) = unat x - unat y"
  by (simp add: unat_sub word_le_nat_alt)

lemma span_end_last:
  "span_end cfg m pos as = (if as = [] then pos else block_end cfg m (last as))"
  by (induction as arbitrary: pos) auto

lemma span_end_append:
  "span_end cfg m pos (as @ bs) = span_end cfg m (span_end cfg m pos as) bs"
  by (induction as arbitrary: pos) auto

lemma tiles_append:
  "tiles cfg m pos (as @ bs) = (tiles cfg m pos as \<and> tiles cfg m (span_end cfg m pos as) bs)"
  by (induction as arbitrary: pos) auto

lemma block_end_cong: "msize (m' a) = msize (m a) \<Longrightarrow> block_end cfg m' a = block_end cfg m a"
  by (simp add: block_end_def)

lemma tiles_cong:
  "(\<And>a. a \<in> set as \<Longrightarrow> msize (m' a) = msize (m a)) \<Longrightarrow> tiles cfg m' pos as = tiles cfg m pos as"
  by (induction as arbitrary: pos) (auto simp: block_end_def)

lemma span_end_cong:
  "(\<And>a. a \<in> set as \<Longrightarrow> msize (m' a) = msize (m a)) \<Longrightarrow>
   span_end cfg m' pos as = span_end cfg m pos as"
  by (induction as arbitrary: pos) (auto simp: block_end_def)

lemma span_end_ge: "tiles cfg m pos as \<Longrightarrow> pos \<le> span_end cfg m pos as"
proof (induction as arbitrary: pos)
  case Nil
  then show ?case by simp
next
  case (Cons a as)
  then have "block_end cfg m a \<le> span_end cfg m (block_end cfg m a) as" by simp
  moreover from Cons.prems have "pos \<le> block_end cfg m a" by (simp add: block_end_def)
  ultimately show ?case by simp
qed

lemma tiles_member:
  "tiles cfg m pos as \<Longrightarrow> a \<in> set as \<Longrightarrow>
   pos \<le> unat a \<and> block_end cfg m a \<le> span_end cfg m pos as"
proof (induction as arbitrary: pos)
  case Nil
  then show ?case by simp
next
  case (Cons b as)
  show ?case
  proof (cases "a = b")
    case True
    with Cons.prems span_end_ge [of cfg m "block_end cfg m b" as] show ?thesis by simp
  next
    case False
    with Cons have "block_end cfg m b \<le> unat a \<and> block_end cfg m a \<le> span_end cfg m (block_end cfg m b) as"
      by simp
    moreover from Cons.prems have "pos \<le> block_end cfg m b" by (simp add: block_end_def)
    ultimately show ?thesis by simp
  qed
qed

lemma tiles_middle:
  assumes "tiles cfg m pos (pre @ b # post)"
  shows "(\<forall>a\<in>set pre. block_end cfg m a \<le> unat b) \<and> (\<forall>a\<in>set post. block_end cfg m b \<le> unat a)
     \<and> block_end cfg m b \<le> span_end cfg m pos (pre @ b # post)"
proof -
  from assms have tp: "tiles cfg m pos pre" and ub: "unat b = span_end cfg m pos pre"
    and tq: "tiles cfg m (block_end cfg m b) post"
    by (simp_all add: tiles_append)
  from tp ub have "\<forall>a\<in>set pre. block_end cfg m a \<le> unat b" using tiles_member by metis
  moreover from tq have "\<forall>a\<in>set post. block_end cfg m b \<le> unat a" using tiles_member by metis
  moreover have "block_end cfg m b \<le> span_end cfg m pos (pre @ b # post)"
    using span_end_ge [OF tq] by (simp add: span_end_append)
  ultimately show ?thesis by blast
qed

lemma laid_out_member:
  assumes lo: "laid_out cfg m as" and a: "a \<in> set as"
  shows "unat (heap_base cfg) \<le> unat a \<and> block_end cfg m a \<le> arena_end cfg"
  using tiles_member [OF _ a, of cfg m "unat (heap_base cfg)"] lo by (auto simp: laid_out_def)

lemma block_start_lt_end: "0 < META cfg \<Longrightarrow> unat a < block_end cfg m a"
  by (simp add: block_end_def word_less_nat_alt)

lemma tiles_sorted:
  assumes "tiles cfg m pos as" "0 < META cfg"
  shows "sorted_wrt (<) as"
  using assms
proof (induction as arbitrary: pos)
  case Nil
  then show ?case by simp
next
  case (Cons a as)
  from Cons.prems have t: "tiles cfg m (block_end cfg m a) as" by simp
  have "\<forall>x\<in>set as. a < x"
  proof
    fix x assume "x \<in> set as"
    with t have "block_end cfg m a \<le> unat x" using tiles_member by metis
    with block_start_lt_end [OF Cons.prems(2), of a m] show "a < x"
      by (simp add: word_less_nat_alt)
  qed
  with Cons.IH [OF t Cons.prems(2)] show ?case by simp
qed

lemma unat_sum_list:
  fixes ws :: "64 word list"
  shows "sum_list (map unat ws) < 2 ^ 64 \<Longrightarrow> unat (sum_list ws) = sum_list (map unat ws)"
proof (induction ws)
  case Nil
  then show ?case by simp
next
  case (Cons w ws)
  then have "unat (sum_list ws) = sum_list (map unat ws)" by simp
  with Cons.prems show ?case by (simp add: unat_plus)
qed

lemma span_end_sum:
  "tiles cfg m pos as \<Longrightarrow>
   span_end cfg m pos as = pos + sum_list (map (\<lambda>a. unat (META cfg) + unat (msize (m a))) as)"
  by (induction as arbitrary: pos) (auto simp: block_end_def)

lemma carve_inside:
  assumes lo: "laid_out cfg m (pre @ b # post)" and sa: "sane cfg"
    and room: "unat n + unat (META cfg) \<le> unat (msize (m b))"
    and chunk: "chunk = b + (META cfg + n)"
  shows "unat chunk = unat b + unat (META cfg) + unat n \<and> chunk \<noteq> 0 \<and>
     chunk \<notin> set (pre @ b # post) \<and> b < chunk \<and> (\<forall>a\<in>set post. chunk < a) \<and>
     unat (msize (m b) - (n + META cfg)) = unat (msize (m b)) - unat n - unat (META cfg)"
proof -
  from sa have ae: "arena_end cfg < 2 ^ 64" and mp: "0 < META cfg" by (simp_all add: sane_def)
  from mp have mpn: "0 < unat (META cfg)" by (simp add: word_less_nat_alt)
  from lo have t: "tiles cfg m (unat (heap_base cfg)) (pre @ b # post)"
    and se: "span_end cfg m (unat (heap_base cfg)) (pre @ b # post) \<le> arena_end cfg"
    by (simp_all add: laid_out_def)
  from tiles_middle [OF t] have before: "\<forall>a\<in>set pre. block_end cfg m a \<le> unat b"
    and after: "\<forall>a\<in>set post. block_end cfg m b \<le> unat a"
    and be: "block_end cfg m b \<le> span_end cfg m (unat (heap_base cfg)) (pre @ b # post)"
    by auto
  from be se ae have lt: "unat b + unat (META cfg) + unat (msize (m b)) < 2 ^ 64"
    by (simp add: block_end_def)
  from room have le: "unat n \<le> unat (msize (m b))" by simp
  have u: "unat chunk = unat b + unat (META cfg) + unat n"
    unfolding chunk using lt le by (rule carve_address)
  with mpn have gt: "unat b < unat chunk" by simp
  then have bc: "b < chunk" by (simp add: word_less_nat_alt)
  from gt have nz: "chunk \<noteq> 0" by auto
  have post: "\<forall>a\<in>set post. chunk < a"
  proof
    fix a assume "a \<in> set post"
    with after have "block_end cfg m b \<le> unat a" by simp
    with u room mpn show "chunk < a" by (simp add: word_less_nat_alt block_end_def)
  qed
  have pre: "chunk \<notin> set pre"
  proof
    assume "chunk \<in> set pre"
    with before have "block_end cfg m chunk \<le> unat b" by simp
    with gt show False by (simp add: block_end_def)
  qed
  have fresh: "chunk \<notin> set (pre @ b # post)" using pre post bc by auto
  have "unat (n + META cfg) = unat n + unat (META cfg)"
    using room lt by (intro unat_plus) simp
  then have "unat (msize (m b) - (n + META cfg)) = unat (msize (m b)) - unat n - unat (META cfg)"
    using room by (subst unat_minus) simp_all
  with u nz fresh bc post show ?thesis by blast
qed

lemma split_laid_out:
  assumes lo: "laid_out cfg m (pre @ b # post)" and sa: "sane cfg"
    and room: "unat n + unat (META cfg) \<le> unat (msize (m b))"
    and chunk: "chunk = b + (META cfg + n)"
    and mb: "msize (m' b) = n" and mc: "msize (m' chunk) = msize (m b) - (n + META cfg)"
    and mo: "\<forall>a. a \<noteq> b \<and> a \<noteq> chunk \<longrightarrow> msize (m' a) = msize (m a)"
    and dist: "b \<notin> set pre" "b \<notin> set post"
  shows "laid_out cfg m' (pre @ b # chunk # post)"
proof -
  define B where "B = unat (heap_base cfg)"
  from carve_inside [OF lo sa room chunk] have u: "unat chunk = unat b + unat (META cfg) + unat n"
    and fresh: "chunk \<notin> set (pre @ b # post)"
    and rem: "unat (msize (m b) - (n + META cfg)) = unat (msize (m b)) - unat n - unat (META cfg)"
    by auto
  from lo have tp: "tiles cfg m B pre" and ub: "unat b = span_end cfg m B pre"
    and tq: "tiles cfg m (block_end cfg m b) post"
    and bound: "span_end cfg m (block_end cfg m b) post \<le> arena_end cfg"
    by (simp_all add: laid_out_def tiles_append span_end_append B_def)
  have same_pre: "\<And>a. a \<in> set pre \<Longrightarrow> msize (m' a) = msize (m a)"
    using mo dist fresh by auto
  have same_post: "\<And>a. a \<in> set post \<Longrightarrow> msize (m' a) = msize (m a)"
    using mo dist fresh by auto
  have b1: "block_end cfg m' b = unat chunk" using u mb by (simp add: block_end_def)
  have b2: "block_end cfg m' chunk = block_end cfg m b"
    using u mc rem room by (simp add: block_end_def)
  have "tiles cfg m' B pre" using tp tiles_cong [of pre m' m cfg B] same_pre by simp
  moreover have "span_end cfg m' B pre = span_end cfg m B pre"
    by (rule span_end_cong) (simp add: same_pre)
  moreover have "tiles cfg m' (block_end cfg m b) post"
    using tq tiles_cong [of post m' m cfg] same_post by simp
  moreover have "span_end cfg m' (block_end cfg m b) post = span_end cfg m (block_end cfg m b) post"
    by (rule span_end_cong) (simp add: same_post)
  ultimately show ?thesis
    using ub bound b1 b2 by (simp add: laid_out_def tiles_append span_end_append B_def)
qed

lemma payload_nonzero:
  assumes lo: "laid_out cfg m as" and sa: "sane cfg" and b: "b \<in> set as"
  shows "b + META cfg \<noteq> 0"
proof -
  from sa have ae: "arena_end cfg < 2 ^ 64" and mp: "0 < META cfg" by (simp_all add: sane_def)
  from lo have t: "tiles cfg m (unat (heap_base cfg)) as"
    and se: "span_end cfg m (unat (heap_base cfg)) as \<le> arena_end cfg"
    by (simp_all add: laid_out_def)
  from tiles_member [OF t b] se ae have "unat b + unat (META cfg) < 2 ^ 64"
    by (simp add: block_end_def)
  then have "unat (b + META cfg) = unat b + unat (META cfg)" by (rule unat_plus)
  moreover from mp have "0 < unat (META cfg)" by (simp add: word_less_nat_alt)
  ultimately have "0 < unat (b + META cfg)" by simp
  then show ?thesis by auto
qed

section \<open>Split\<close>

text \<open>
  Claim C7, amended. Let \<open>ptr\<close> be a free block that lies in the array (its header starts
  at or after the base, its payload ends at or before the end of the array, the array does
  not wrap around the address space, and a header has a positive size), whose size is at
  least the requested size plus the threshold and at least the requested size plus one
  header. Then \<open>split\<close> carves a header at \<open>ptr + (META + sz)\<close>, inside the payload of
  \<open>ptr\<close>: its size is the old size less the request less one header, without wrap-around,
  it is free, its \<open>next\<close> is the old \<open>next\<close> of \<open>ptr\<close>, and its block ends where the block
  of \<open>ptr\<close> ended. The block \<open>ptr\<close> gets exactly the requested size and the new header as
  its \<open>next\<close>. The new header becomes the tail when it has no \<open>next\<close>; otherwise the tail
  stays. No header that lies wholly before \<open>ptr\<close>, or at or after the old end of the block
  of \<open>ptr\<close> (and does not wrap around the address space), changes, nor does the counter.
\<close>

theorem split_carves:
  assumes blk: "ptr \<noteq> 0" "0 < META cfg"
    and inside: "unat (heap_base cfg) \<le> unat ptr" "block_end cfg (mem s) ptr \<le> arena_end cfg"
      "arena_end cfg < 2 ^ 64"
    and free: "mfree (mem s ptr)"
    and fit: "unat sz + unat (THRESHOLD cfg) \<le> unat (msize (mem s ptr))"
    and room: "unat sz + unat (META cfg) \<le> unat (msize (mem s ptr))"
  shows "\<exists>s' chunk. split cfg s ptr sz = ok s' \<and>
     chunk = ptr + (META cfg + sz) \<and>
     unat chunk = unat ptr + unat (META cfg) + unat sz \<and>
     mem s' chunk = \<lparr>msize = msize (mem s ptr) - sz - META cfg, mfree = True, mnext = mnext (mem s ptr)\<rparr> \<and>
     unat (msize (mem s' chunk)) = unat (msize (mem s ptr)) - unat sz - unat (META cfg) \<and>
     block_end cfg (mem s') chunk = block_end cfg (mem s) ptr \<and>
     mem s' ptr = \<lparr>msize = sz, mfree = True, mnext = chunk\<rparr> \<and>
     lastp s' = (if mnext (mem s ptr) = 0 then chunk else lastp s) \<and>
     (\<forall>a. unat a + unat (META cfg) \<le> unat ptr \<or>
          (block_end cfg (mem s) ptr \<le> unat a \<and> unat a + unat (META cfg) \<le> 2 ^ 64) \<longrightarrow>
          mem s' a = mem s a) \<and>
     freespace s' = freespace s \<and> first s' = first s"
proof -
  define chunk where "chunk = ptr + (META cfg + sz)"
  have lt: "unat ptr + unat (META cfg) + unat (msize (mem s ptr)) < 2 ^ 64"
    using inside(2,3) by (simp add: block_end_def)
  have le: "unat sz \<le> unat (msize (mem s ptr))" using room by simp
  have u: "unat chunk = unat ptr + unat (META cfg) + unat sz"
    unfolding chunk_def using lt le by (rule carve_address)
  have mp: "0 < unat (META cfg)" using blk(2) by (simp add: word_less_nat_alt)
  with u have gt: "unat ptr < unat chunk" by simp
  then have ne: "chunk \<noteq> ptr" by auto
  from gt have nz: "chunk \<noteq> 0" by auto
  have "unat (sz + META cfg) = unat sz + unat (META cfg)"
    using room lt by (intro unat_plus) simp
  then have rem: "unat (msize (mem s ptr) - (sz + META cfg))
      = unat (msize (mem s ptr)) - unat sz - unat (META cfg)"
    using room by (subst unat_minus) simp_all
  define s5 where "s5 =
     set_size (set_size (set_free (set_next (set_next s chunk (mnext (mem s ptr))) ptr chunk) chunk True)
        chunk (msize (mem s ptr) - (sz + META cfg))) ptr sz"
  define s' where "s' = (if mnext (mem s ptr) = 0 then s5\<lparr>lastp := chunk\<rparr> else s5)"
  have run: "split cfg s ptr sz = ok s'"
    using blk(1) ne nz
    by (simp add: split_def Let_def deref_def chunk_def [symmetric] set_next_def set_free_def
        set_size_def s'_def s5_def)
  have props: "mem s' chunk = \<lparr>msize = msize (mem s ptr) - sz - META cfg, mfree = True, mnext = mnext (mem s ptr)\<rparr>"
     "mem s' ptr = \<lparr>msize = sz, mfree = True, mnext = chunk\<rparr>"
     "lastp s' = (if mnext (mem s ptr) = 0 then chunk else lastp s)"
     "freespace s' = freespace s" "first s' = first s"
    using ne free by (simp_all add: s'_def s5_def set_next_def set_free_def set_size_def diff_diff_add)
  have other: "\<forall>a. a \<noteq> ptr \<and> a \<noteq> chunk \<longrightarrow> mem s' a = mem s a"
    by (simp add: s'_def s5_def set_next_def set_free_def set_size_def)
  have size: "unat (msize (mem s' chunk)) = unat (msize (mem s ptr)) - unat sz - unat (META cfg)"
    using rem by (simp add: props(1) diff_diff_add)
  have ends: "block_end cfg (mem s') chunk = block_end cfg (mem s) ptr"
    using size u room by (simp add: block_end_def)
  have frame: "\<forall>a. unat a + unat (META cfg) \<le> unat ptr \<or>
          (block_end cfg (mem s) ptr \<le> unat a \<and> unat a + unat (META cfg) \<le> 2 ^ 64) \<longrightarrow>
          mem s' a = mem s a"
  proof (intro allI impI)
    fix a :: addr
    assume a: "unat a + unat (META cfg) \<le> unat ptr \<or>
          (block_end cfg (mem s) ptr \<le> unat a \<and> unat a + unat (META cfg) \<le> 2 ^ 64)"
    then have "unat a < unat ptr \<or> unat chunk < unat a"
      using mp u room by (auto simp: block_end_def)
    with gt have "a \<noteq> ptr \<and> a \<noteq> chunk" by auto
    with other show "mem s' a = mem s a" by simp
  qed
  from run chunk_def u props size ends frame show ?thesis by blast
qed

theorem split_carves_witness:
  "\<exists>s'. split cfg_ex st_adj 4140 8 = ok s' \<and>
     mem s' 4172 = \<lparr>msize = 24, mfree = True, mnext = 4220\<rparr> \<and>
     mem s' 4140 = \<lparr>msize = 8, mfree = True, mnext = 4172\<rparr> \<and>
     mem s' 4096 = mem st_adj 4096 \<and> mem s' 4220 = mem st_adj 4220 \<and>
     lastp s' = 4294 \<and> freespace s' = 874"
proof -
  have blk: "(4140 :: addr) \<noteq> 0" "0 < META cfg_ex"
    and inside: "unat (heap_base cfg_ex) \<le> unat (4140 :: addr)"
      "block_end cfg_ex (mem st_adj) 4140 \<le> arena_end cfg_ex" "arena_end cfg_ex < 2 ^ 64"
    and free: "mfree (mem st_adj 4140)"
    and fit: "unat (8 :: size_t) + unat (THRESHOLD cfg_ex) \<le> unat (msize (mem st_adj 4140))"
    and room: "unat (8 :: size_t) + unat (META cfg_ex) \<le> unat (msize (mem st_adj 4140))"
    by (simp_all add: st_adj_def cfg_ex_def block_end_def arena_end_def)
  have out: "unat (4096 :: addr) + unat (META cfg_ex) \<le> unat (4140 :: addr)
        \<or> (block_end cfg_ex (mem st_adj) 4140 \<le> unat (4096 :: addr)
            \<and> unat (4096 :: addr) + unat (META cfg_ex) \<le> 2 ^ 64)"
      "unat (4220 :: addr) + unat (META cfg_ex) \<le> unat (4140 :: addr)
        \<or> (block_end cfg_ex (mem st_adj) 4140 \<le> unat (4220 :: addr)
            \<and> unat (4220 :: addr) + unat (META cfg_ex) \<le> 2 ^ 64)"
    by (simp_all add: st_adj_def cfg_ex_def block_end_def)
  from split_carves [OF blk inside free fit room] obtain s' chunk where
    "split cfg_ex st_adj 4140 8 = ok s'" "chunk = 4140 + (META cfg_ex + 8)"
    "mem s' chunk = \<lparr>msize = msize (mem st_adj 4140) - 8 - META cfg_ex, mfree = True,
        mnext = mnext (mem st_adj 4140)\<rparr>"
    "mem s' 4140 = \<lparr>msize = 8, mfree = True, mnext = chunk\<rparr>"
    "lastp s' = (if mnext (mem st_adj 4140) = 0 then chunk else lastp st_adj)"
    "\<forall>a. unat a + unat (META cfg_ex) \<le> unat (4140 :: addr)
          \<or> (block_end cfg_ex (mem st_adj) 4140 \<le> unat a \<and> unat a + unat (META cfg_ex) \<le> 2 ^ 64)
          \<longrightarrow> mem s' a = mem st_adj a"
    "freespace s' = freespace st_adj"
    by blast
  with out have "split cfg_ex st_adj 4140 8 = ok s' \<and>
     mem s' 4172 = \<lparr>msize = 24, mfree = True, mnext = 4220\<rparr> \<and>
     mem s' 4140 = \<lparr>msize = 8, mfree = True, mnext = 4172\<rparr> \<and>
     mem s' 4096 = mem st_adj 4096 \<and> mem s' 4220 = mem st_adj 4220 \<and>
     lastp s' = 4294 \<and> freespace s' = 874"
    by (simp add: st_adj_def cfg_ex_def)
  then show ?thesis by blast
qed

text \<open>
  Claim C7 as stated fails when the threshold is smaller than a header. With the threshold 8
  and headers of 24 bytes, after \<^verbatim>\<open>my_malloc(20)\<close>, \<^verbatim>\<open>my_malloc(10)\<close> and \<^verbatim>\<open>my_free\<close> of
  the first pointer, the block at 4096 is free, has 20 bytes, and its successor is the
  allocated block at 4140. A request of 10 bytes meets the condition of the claim, 10 + 8
  \<open>\<le>\<close> 20. Yet \<open>split\<close> stores 20 - 34 in an unsigned field: the header carved at 4130 gets
  the size \<open>2\<^sup>6\<^sup>4 - 14\<close>, which is not 20 - 10 - 24, and its 24 bytes reach past 4140, into
  the header of the next block.
\<close>

theorem split_remainder_underflow_counterexample:
  "bindR (my_malloc cfg_small (init cfg_small) 20) (\<lambda>(p1, s1).
   bindR (my_malloc cfg_small s1 10) (\<lambda>(p2, s2).
   bindR (my_free cfg_small s2 p1) (\<lambda>(r, s3).
   bindR (split cfg_small s3 4096 10) (\<lambda>s4.
     ok (p1, p2, mem s3 4096, mem s3 4140,
         unat (10 :: size_t) + unat (THRESHOLD cfg_small) \<le> unat (msize (mem s3 4096)),
         mnext (mem s4 4096), msize (mem s4 4130),
         int (unat (msize (mem s4 4130)))
           = int (unat (msize (mem s3 4096))) - 10 - int (unat (META cfg_small)),
         unat (4130 :: addr) + unat (META cfg_small) \<le> unat (mnext (mem s3 4096)))))))
   = ok (4120, 4164, \<lparr>msize = 20, mfree = True, mnext = 4140\<rparr>,
         \<lparr>msize = 10, mfree = False, mnext = 0\<rparr>,
         True, 4130, 18446744073709551602, False, False)"
  by (simp add: run_simps cfg_small_def)

section \<open>First fit\<close>

lemma find_first:
  "P x \<Longrightarrow> \<forall>y\<in>set ys. \<not> P y \<Longrightarrow> List.find P (ys @ x # zs) = Some x"
  by (induction ys) auto

lemma search_freespace_first_fit:
  assumes "chain (mem s) (heap_base cfg) (pre @ b # post)" "fits (mem s) n b"
    "\<forall>a\<in>set pre. \<not> fits (mem s) n a"
  shows "search_freespace cfg s n = Some b"
proof -
  from assms(2,3) have "List.find (fits (mem s) n) (pre @ b # post) = Some b"
    by (intro find_first) auto
  with search_loop_chain [OF assms(1), of n] show ?thesis
    by (simp add: search_freespace_def)
qed

lemma my_malloc_split_path:
  assumes sf: "search_freespace cfg s n = Some b" and bnz: "b \<noteq> 0" and nf: "\<not> first s"
    and n: "n \<noteq> 0" and thr: "n + THRESHOLD cfg \<le> msize (mem s b)"
    and chunk: "chunk = b + (META cfg + n)" and cnz: "chunk \<noteq> 0" and cb: "chunk \<noteq> b"
  shows "\<exists>s1. my_malloc cfg s n = ok (b + META cfg, s1) \<and>
     mem s1 chunk = \<lparr>msize = msize (mem s b) - (n + META cfg), mfree = True, mnext = mnext (mem s b)\<rparr> \<and>
     mem s1 b = \<lparr>msize = n, mfree = False, mnext = chunk\<rparr> \<and>
     (\<forall>a. a \<noteq> b \<and> a \<noteq> chunk \<longrightarrow> mem s1 a = mem s a) \<and>
     lastp s1 = (if mnext (mem s b) = 0 then chunk else lastp s) \<and>
     freespace s1 = freespace s - (n + META cfg) \<and> first s1 = first s"
proof -
  define s5 where "s5 =
     set_size (set_size (set_free (set_next (set_next (s\<lparr>freespace := freespace s - msize (mem s b)\<rparr>) chunk (mnext (mem s b))) b chunk) chunk True)
        chunk (msize (mem s b) - (n + META cfg))) b n"
  define s6 where "s6 = (if mnext (mem s b) = 0 then s5\<lparr>lastp := chunk\<rparr> else s5)"
  define s1 where "s1 = set_free (s6\<lparr>freespace := freespace s6 + msize (mem s6 chunk)\<rparr>) b False"
  have sp: "split cfg (s\<lparr>freespace := freespace s - msize (mem s b)\<rparr>) b n = ok s6"
    using bnz cnz cb
    by (simp add: split_def Let_def deref_def chunk [symmetric] set_next_def set_free_def
        set_size_def s6_def s5_def)
  have nx: "mnext (mem s6 b) = chunk"
    using cb by (simp add: s6_def s5_def set_next_def set_free_def set_size_def)
  have run: "my_malloc cfg s n = ok (b + META cfg, s1)"
    using sf bnz nf n thr sp nx cnz
    by (simp add: my_malloc_def deref_def s1_def)
  have props: "mem s1 chunk = \<lparr>msize = msize (mem s b) - (n + META cfg), mfree = True, mnext = mnext (mem s b)\<rparr>"
     "mem s1 b = \<lparr>msize = n, mfree = False, mnext = chunk\<rparr>"
     "\<forall>a. a \<noteq> b \<and> a \<noteq> chunk \<longrightarrow> mem s1 a = mem s a"
     "lastp s1 = (if mnext (mem s b) = 0 then chunk else lastp s)"
     "freespace s1 = freespace s - (n + META cfg)" "first s1 = first s"
    using cb by (simp_all add: s1_def s6_def s5_def set_next_def set_free_def set_size_def)
  from run props show ?thesis by blast
qed

lemma my_malloc_unsplit_path:
  assumes sf: "search_freespace cfg s n = Some b" and bnz: "b \<noteq> 0" and nf: "\<not> first s"
    and n: "n \<noteq> 0" and thr: "\<not> n + THRESHOLD cfg \<le> msize (mem s b)"
  shows "my_malloc cfg s n =
     ok (b + META cfg, set_free (s\<lparr>freespace := freespace s - n\<rparr>) b False)"
  using assms by (simp add: my_malloc_def)

text \<open>
  Claim C8, amended. In a call of \<^verbatim>\<open>my_malloc\<close> that is not the first, with a size that is
  not 0, on a chain that holds a free block large enough: the search returns the earliest
  such block \<open>b\<close> of the chain (no block before it fits; when the chain is in ascending
  address order, \<open>b\<close> has the lowest address of all that fit). The call hands out the payload
  of \<open>b\<close> and marks \<open>b\<close> allocated, provided that, when the size test sends \<open>b\<close> to
  \<open>split\<close>, the blocks of the chain tile the array and \<open>b\<close> has room for the request and
  one more header.
\<close>

theorem my_malloc_first_fit:
  assumes ch: "chain (mem s) (heap_base cfg) as" and nf: "\<not> first s" and sz: "sz \<noteq> 0"
    and ex: "\<exists>a\<in>set as. fits (mem s) sz a"
  shows "\<exists>pre b post. as = pre @ b # post \<and> fits (mem s) sz b \<and>
      (\<forall>a\<in>set pre. \<not> fits (mem s) sz a) \<and>
      (sorted_wrt (<) as \<longrightarrow> (\<forall>a\<in>set as. fits (mem s) sz a \<longrightarrow> b \<le> a)) \<and>
      search_freespace cfg s sz = Some b \<and>
      ((sz + THRESHOLD cfg \<le> msize (mem s b) \<longrightarrow>
          laid_out cfg (mem s) as \<and> sane cfg \<and> unat sz + unat (META cfg) \<le> unat (msize (mem s b)))
       \<longrightarrow> (\<exists>s'. my_malloc cfg s sz = ok (b + META cfg, s') \<and> \<not> mfree (mem s' b)))"
proof -
  from split_list_first_prop [OF ex] obtain pre b post where
    as: "as = pre @ b # post" and fb: "fits (mem s) sz b" and np: "\<forall>a\<in>set pre. \<not> fits (mem s) sz a"
    by blast
  have sf: "search_freespace cfg s sz = Some b"
    using ch fb np unfolding as by (rule search_freespace_first_fit)
  from ch as have bnz: "b \<noteq> 0" using chain_nonzero by fastforce
  have low: "sorted_wrt (<) as \<longrightarrow> (\<forall>a\<in>set as. fits (mem s) sz a \<longrightarrow> b \<le> a)"
    using np unfolding as by (auto simp: sorted_wrt_append)
  have res: "\<exists>s'. my_malloc cfg s sz = ok (b + META cfg, s') \<and> \<not> mfree (mem s' b)"
    if c: "sz + THRESHOLD cfg \<le> msize (mem s b) \<longrightarrow>
          laid_out cfg (mem s) as \<and> sane cfg \<and> unat sz + unat (META cfg) \<le> unat (msize (mem s b))"
  proof (cases "sz + THRESHOLD cfg \<le> msize (mem s b)")
    case False
    define s1 where "s1 = set_free (s\<lparr>freespace := freespace s - sz\<rparr>) b False"
    have "my_malloc cfg s sz = ok (b + META cfg, s1)"
      unfolding s1_def by (rule my_malloc_unsplit_path [OF sf bnz nf sz False])
    moreover have "\<not> mfree (mem s1 b)" by (simp add: s1_def set_free_def)
    ultimately show ?thesis by blast
  next
    case True
    with c have lo: "laid_out cfg (mem s) (pre @ b # post)" and sa: "sane cfg"
      and room: "unat sz + unat (META cfg) \<le> unat (msize (mem s b))"
      by (simp_all add: as)
    from carve_inside [OF lo sa room refl] have cnz: "b + (META cfg + sz) \<noteq> 0"
      and cb: "b + (META cfg + sz) \<noteq> b" by auto
    from my_malloc_split_path [OF sf bnz nf sz True refl cnz cb] show ?thesis by auto
  qed
  from as fb np low sf res show ?thesis by blast
qed

theorem my_malloc_first_fit_witness:
  "search_freespace cfg_ex st_adj 40 = Some 4140 \<and> fits (mem st_adj) 40 4220 \<and>
   (\<exists>s'. my_malloc cfg_ex st_adj 40 = ok (4164, s') \<and> \<not> mfree (mem s' 4140)) \<and>
   search_freespace cfg_ex st_adj 8 = Some 4140 \<and> fits (mem st_adj) 8 4220 \<and>
   8 + THRESHOLD cfg_ex \<le> msize (mem st_adj 4140) \<and>
   (\<exists>s'. my_malloc cfg_ex st_adj 8 = ok (4164, s') \<and> \<not> mfree (mem s' 4140))"
proof -
  have nf: "\<not> first st_adj" and sz: "(40 :: size_t) \<noteq> 0"
    and ex: "\<exists>a\<in>set [4096, 4140, 4220, 4294]. fits (mem st_adj) 40 a"
    and f2: "fits (mem st_adj) 40 4220"
    by (simp_all add: st_adj_def fits_def)
  have c: "40 + THRESHOLD cfg_ex \<le> msize (mem st_adj 4140) \<longrightarrow>
      laid_out cfg_ex (mem st_adj) [4096, 4140, 4220, 4294] \<and> sane cfg_ex \<and>
      unat (40 :: size_t) + unat (META cfg_ex) \<le> unat (msize (mem st_adj 4140))"
    by (simp add: st_adj_def cfg_ex_def laid_out_def block_end_def arena_end_def sane_def)
  from my_malloc_first_fit [OF st_adj_chain nf sz ex] obtain b where
    sf: "search_freespace cfg_ex st_adj 40 = Some b"
    and res: "(40 + THRESHOLD cfg_ex \<le> msize (mem st_adj b) \<longrightarrow>
          laid_out cfg_ex (mem st_adj) [4096, 4140, 4220, 4294] \<and> sane cfg_ex \<and>
          unat (40 :: size_t) + unat (META cfg_ex) \<le> unat (msize (mem st_adj b)))
       \<longrightarrow> (\<exists>s'. my_malloc cfg_ex st_adj 40 = ok (b + META cfg_ex, s') \<and> \<not> mfree (mem s' b))"
    by blast
  have "search_freespace cfg_ex st_adj 40 = Some 4140"
    by (simp add: search_freespace_def search_loop.simps st_adj_def cfg_ex_def)
  with sf have b: "b = 4140" by simp
  from res [unfolded b] c
  have "\<exists>s'. my_malloc cfg_ex st_adj 40 = ok (4140 + META cfg_ex, s') \<and> \<not> mfree (mem s' 4140)"
    by blast
  with sf b f2 have whole: "search_freespace cfg_ex st_adj 40 = Some 4140 \<and>
      fits (mem st_adj) 40 4220 \<and>
      (\<exists>s'. my_malloc cfg_ex st_adj 40 = ok (4164, s') \<and> \<not> mfree (mem s' 4140))"
    by (simp add: cfg_ex_def)
  have sz': "(8 :: size_t) \<noteq> 0"
    and ex': "\<exists>a\<in>set [4096, 4140, 4220, 4294]. fits (mem st_adj) 8 a"
    and f2': "fits (mem st_adj) 8 4220"
    and thr: "8 + THRESHOLD cfg_ex \<le> msize (mem st_adj 4140)"
    by (simp_all add: st_adj_def fits_def cfg_ex_def)
  have c': "laid_out cfg_ex (mem st_adj) [4096, 4140, 4220, 4294] \<and> sane cfg_ex \<and>
      unat (8 :: size_t) + unat (META cfg_ex) \<le> unat (msize (mem st_adj 4140))"
    by (simp add: st_adj_def cfg_ex_def laid_out_def block_end_def arena_end_def sane_def)
  from my_malloc_first_fit [OF st_adj_chain nf sz' ex'] obtain b' where
    sf': "search_freespace cfg_ex st_adj 8 = Some b'"
    and res': "(8 + THRESHOLD cfg_ex \<le> msize (mem st_adj b') \<longrightarrow>
          laid_out cfg_ex (mem st_adj) [4096, 4140, 4220, 4294] \<and> sane cfg_ex \<and>
          unat (8 :: size_t) + unat (META cfg_ex) \<le> unat (msize (mem st_adj b')))
       \<longrightarrow> (\<exists>s'. my_malloc cfg_ex st_adj 8 = ok (b' + META cfg_ex, s') \<and> \<not> mfree (mem s' b'))"
    by blast
  have "search_freespace cfg_ex st_adj 8 = Some 4140"
    by (simp add: search_freespace_def search_loop.simps st_adj_def cfg_ex_def)
  with sf' have b': "b' = 4140" by simp
  from res' [unfolded b'] c'
  have "\<exists>s'. my_malloc cfg_ex st_adj 8 = ok (4140 + META cfg_ex, s') \<and> \<not> mfree (mem s' 4140)"
    by blast
  with sf' b' f2' thr have split: "search_freespace cfg_ex st_adj 8 = Some 4140 \<and>
      fits (mem st_adj) 8 4220 \<and> 8 + THRESHOLD cfg_ex \<le> msize (mem st_adj 4140) \<and>
      (\<exists>s'. my_malloc cfg_ex st_adj 8 = ok (4164, s') \<and> \<not> mfree (mem s' 4140))"
    by (simp add: cfg_ex_def)
  from whole split show ?thesis by blast
qed

text \<open>
  Claim C8 as stated fails where the split cannot be carried out. In the fresh arena
  \<^verbatim>\<open>my_malloc\<close> of \<open>2\<^sup>6\<^sup>4 - 1\<close> bytes places one block of that size at the base, 4096, and
  \<^verbatim>\<open>my_free\<close> releases it. For a request of \<open>2\<^sup>6\<^sup>4 - 4120\<close> bytes that block is the one
  that fits and the search returns it; the size test sends it to \<open>split\<close>, which computes
  the address of the new header as 4096 + 24 + (\<open>2\<^sup>6\<^sup>4\<close> - 4120), that is 0 in 64 bits, and
  writes through it. The call hands out no block.
\<close>

theorem first_fit_split_at_null_counterexample:
  "bindR (my_malloc cfg_ex (init cfg_ex) 18446744073709551615) (\<lambda>(p, s1).
   bindR (my_free cfg_ex s1 p) (\<lambda>(r, s2).
     ok (p, r, first s2, chain (mem s2) (heap_base cfg_ex) [4096],
         fits (mem s2) 18446744073709547496 4096,
         search_freespace cfg_ex s2 18446744073709547496,
         my_malloc cfg_ex s2 18446744073709547496)))
   = ok (4120, FreeFor 18446744073709551615, False, True, True, Some 4096, Some (Inl NullDeref))"
  by (simp add: run_simps measure_simps)

section \<open>Deallocating an invalid pointer\<close>

text \<open>
  Claim C9, amended. For a pointer that is not null and whose header lies outside the range
  from the base to the tail, or is no header of the chain, \<^verbatim>\<open>my_free\<close> reports an invalid
  address and then is exactly the defragmentation sweep. When no two neighbours of the chain
  are both free, the sweep changes nothing and the state after the call is the state before.
\<close>

theorem my_free_invalid_pointer:
  assumes ch: "chain (mem s) (heap_base cfg) as" and nz: "ptr \<noteq> 0"
    and inv: "\<not> (heap_base cfg \<le> ptr - META cfg \<and> ptr - META cfg \<le> lastp s) \<or> ptr - META cfg \<notin> set as"
  shows "my_free cfg s ptr = bindR (deframent_my_heap cfg s) (\<lambda>s1. ok (InvalidAddress, s1)) \<and>
     (no_adjacent_free (mem s) as \<longrightarrow> my_free cfg s ptr = ok (InvalidAddress, s))"
proof -
  have a: "my_free cfg s ptr = bindR (deframent_my_heap cfg s) (\<lambda>s1. ok (InvalidAddress, s1))"
    by (rule my_free_invalid [OF ch nz inv])
  have "no_adjacent_free (mem s) as \<Longrightarrow> deframent_my_heap cfg s = ok s"
    unfolding deframent_my_heap_def using ch by (rule defrag_loop_id)
  with a show ?thesis by simp
qed

theorem my_free_invalid_pointer_witness:
  "my_free cfg_ex st_one_free 4200 = ok (InvalidAddress, st_one_free)"
proof -
  have nz: "(4200 :: addr) \<noteq> 0" by simp
  have inv: "\<not> (heap_base cfg_ex \<le> 4200 - META cfg_ex \<and> 4200 - META cfg_ex \<le> lastp st_one_free)
      \<or> 4200 - META cfg_ex \<notin> set [4096, 4220, 4294]"
    by (simp add: cfg_ex_def)
  have naf: "no_adjacent_free (mem st_one_free) [4096, 4220, 4294]"
    by (simp add: st_one_free_def)
  from my_free_invalid_pointer [OF st_one_free_chain nz inv] naf show ?thesis by blast
qed

text \<open>
  Claim C9 as stated fails where the chain has two free neighbours. In \<open>st_adj\<close> the pointer
  4200 is no payload of a block; the call reports it, and the sweep that follows fuses the
  blocks at 4140 and 4220: the size of the first goes from 56 to 130, its link from 4220 to
  4294, and the counter from 874 to 898.
\<close>

theorem my_free_invalid_pointer_counterexample:
  "chain (mem st_adj) (heap_base cfg_ex) [4096, 4140, 4220, 4294] \<and>
   4200 - META cfg_ex \<notin> set [4096, 4140, 4220, 4294] \<and>
   (freespace st_adj, msize (mem st_adj 4140), mnext (mem st_adj 4140)) = (874, 56, 4220) \<and>
   bindR (my_free cfg_ex st_adj 4200)
     (\<lambda>(r, s'). ok (r, freespace s', msize (mem s' 4140), mnext (mem s' 4140)))
   = ok (InvalidAddress, 898, 130, 4294)"
  by (simp add: run_simps st_adj_def)

section \<open>No adjacent free blocks after a deallocation\<close>




section \<open>Allocating and releasing at once\<close>

lemma no_adjacent_free_middle:
  "no_adjacent_free m (pre @ b # post) \<Longrightarrow> mfree (m b) \<Longrightarrow>
   (pre \<noteq> [] \<longrightarrow> \<not> mfree (m (last pre))) \<and> (post \<noteq> [] \<longrightarrow> \<not> mfree (m (hd post)))"
proof (induction pre)
  case Nil
  then show ?case by (cases post) auto
next
  case (Cons a pre)
  then show ?case by (cases pre) (auto simp: no_adjacent_free_Cons)
qed

lemma path_start: "path m p pre q \<Longrightarrow> p = hd (pre @ [q])"
  by (cases pre) auto

lemma chain_next: "chain m b (b # post) \<Longrightarrow> mnext (m b) = (if post = [] then 0 else hd post)"
  by (cases post) auto

lemma while_stop:
  "(post \<noteq> [] \<longrightarrow> \<not> P (hd post)) \<Longrightarrow> dropWhile P post = post \<and> takeWhile P post = []"
  by (cases post) auto

lemma round_trip_split:
  assumes ch: "chain (mem s) (heap_base cfg) (pre @ b # post)"
    and ord: "sorted_wrt (<) (pre @ b # post)"
    and tail: "lastp s = last (pre @ b # post)"
    and nf: "\<not> first s"
    and naf: "no_adjacent_free (mem s) (pre @ b # post)"
    and n: "n \<noteq> 0"
    and fit: "fits (mem s) n b" "\<forall>a\<in>set pre. \<not> fits (mem s) n a"
    and thr: "n + THRESHOLD cfg \<le> msize (mem s b)"
    and pnz: "b + META cfg \<noteq> 0"
    and place: "b < b + (META cfg + n)" "\<forall>a\<in>set post. b + (META cfg + n) < a"
  shows "\<exists>s1 r s2. my_malloc cfg s n = ok (b + META cfg, s1) \<and>
      my_free cfg s1 (b + META cfg) = ok (r, s2) \<and>
      free_space_in_my_heap s2 = free_space_in_my_heap s \<and>
      chain (mem s2) (heap_base cfg) (pre @ b # post) \<and>
      (\<forall>a\<in>set (pre @ b # post). mem s2 a = mem s a) \<and> lastp s2 = lastp s"
proof -
  define chunk where "chunk = b + (META cfg + n)"
  define as where "as = pre @ b # post"
  from ch have pp: "path (mem s) (heap_base cfg) pre b" and cb: "chain (mem s) b (b # post)"
    by (auto simp: chain_append)
  from cb have bnz: "b \<noteq> 0" and cpost: "chain (mem s) (mnext (mem s b)) post" by auto
  from place(1) have bc: "b < chunk" by (simp add: chunk_def)
  then have cnz: "chunk \<noteq> 0" and cneb: "chunk \<noteq> b" by auto
  from ch have dist: "distinct (pre @ b # post)" by (rule chain_distinct)
  then have b_pre: "b \<notin> set pre" and b_post: "b \<notin> set post" by auto
  from ord have pre_lt: "\<forall>a\<in>set pre. a < b" and post_gt: "\<forall>a\<in>set post. b < a"
    by (auto simp: sorted_wrt_append)
  from pre_lt bc have c_pre: "chunk \<notin> set pre" by auto
  from place(2) have c_post: "chunk \<notin> set post" by (auto simp: chunk_def)
  from fit(1) have bfree: "mfree (mem s b)" by (simp add: fits_def)
  have sf: "search_freespace cfg s n = Some b"
    by (rule search_freespace_first_fit [OF ch fit])
  from my_malloc_split_path [OF sf bnz nf n thr chunk_def cnz cneb] obtain s1 where
    run1: "my_malloc cfg s n = ok (b + META cfg, s1)"
    and m1c: "mem s1 chunk = \<lparr>msize = msize (mem s b) - (n + META cfg), mfree = True, mnext = mnext (mem s b)\<rparr>"
    and m1b: "mem s1 b = \<lparr>msize = n, mfree = False, mnext = chunk\<rparr>"
    and m1o: "\<forall>a. a \<noteq> b \<and> a \<noteq> chunk \<longrightarrow> mem s1 a = mem s a"
    and l1: "lastp s1 = (if mnext (mem s b) = 0 then chunk else lastp s)"
    and f1: "freespace s1 = freespace s - (n + META cfg)"
    by blast
  have m1_pre: "\<And>a. a \<in> set pre \<Longrightarrow> mem s1 a = mem s a"
    using m1o b_pre c_pre by auto
  have m1_post: "\<And>a. a \<in> set post \<Longrightarrow> mem s1 a = mem s a"
    using m1o b_post c_post by auto
  have pp1: "path (mem s1) (heap_base cfg) pre b"
    using pp path_cong [of pre "mem s1" "mem s"] m1_pre by simp
  have cpost1: "chain (mem s1) (mnext (mem s b)) post"
    using cpost chain_cong [of post "mem s1" "mem s"] m1_post by simp
  have ch1: "chain (mem s1) (heap_base cfg) (pre @ b # chunk # post)"
    using pp1 cpost1 bnz cnz m1b m1c by (auto simp: chain_append)
  have base_le: "heap_base cfg \<le> b"
  proof (cases pre)
    case Nil
    with pp show ?thesis by simp
  next
    case (Cons a pre')
    with pp have "heap_base cfg = a" by simp
    with Cons pre_lt show ?thesis by auto
  qed
  have nx: "mnext (mem s b) = (if post = [] then 0 else hd post)"
    using cb by (rule chain_next)
  have post_nz: "post \<noteq> [] \<Longrightarrow> hd post \<noteq> 0"
    using cpost chain_nonzero [OF cpost] by (cases post) auto
  have le_last: "b \<le> lastp s1"
  proof (cases "post = []")
    case True
    with nx l1 bc show ?thesis by simp
  next
    case False
    with nx post_nz l1 tail have "lastp s1 = last post" by simp
    moreover from False have "last post \<in> set post" by simp
    ultimately show ?thesis using post_gt by auto
  qed
  define s2 where "s2 = (set_free s1 b True)\<lparr>freespace := freespace s1 + msize (mem s1 b)\<rparr>"
  define prev where "prev = (if pre = [] then 0 else last pre)"
  have bb: "b = b + META cfg - META cfg" by simp
  have run2: "my_free cfg s1 (b + META cfg) =
      bindR (fuse cfg s2 b) (\<lambda>s3.
        bindR (if prev \<noteq> 0 \<and> mfree (mem s3 prev) then fuse cfg s3 prev else ok s3) (\<lambda>s4.
        bindR (deframent_my_heap cfg s4) (\<lambda>s5.
        ok (FreeFor (msize (mem s1 b)), s5))))"
    using base_le le_last
    by (intro my_free_valid [OF ch1 pnz bb _ prev_def s2_def]) simp
  have m2: "mem s2 = (mem s1)(b := (mem s1 b)\<lparr>mfree := True\<rparr>)"
    and f2: "freespace s2 = freespace s - META cfg" and l2: "lastp s2 = lastp s1"
    by (simp_all add: s2_def set_free_def f1 m1b)
  have ch2: "chain (mem s2) (heap_base cfg) (pre @ b # chunk # post)"
    using ch1 chain_cong [of "pre @ b # chunk # post" "mem s2" "mem s1"] by (simp add: m2)
  have m2c: "mem s2 chunk = mem s1 chunk" using cneb by (simp add: m2)
  have m2_post: "\<And>a. a \<in> set post \<Longrightarrow> mem s2 a = mem s a"
    using m1_post b_post by (auto simp: m2)
  from no_adjacent_free_middle [OF naf bfree]
  have prev_nf: "pre \<noteq> [] \<longrightarrow> \<not> mfree (mem s (last pre))"
    and next_nf: "post \<noteq> [] \<longrightarrow> \<not> mfree (mem s (hd post))" by auto
  have "post \<noteq> [] \<longrightarrow> \<not> mfree (mem s2 (hd post))"
    using next_nf m2_post by auto
  then have stop: "dropWhile (\<lambda>a. mfree (mem s2 a)) post = post"
    "takeWhile (\<lambda>a. mfree (mem s2 a)) post = []"
    using while_stop [of post "\<lambda>a. mfree (mem s2 a)"] by auto
  have dw: "dropWhile (\<lambda>a. mfree (mem s2 a)) (chunk # post) = post"
    and tw: "takeWhile (\<lambda>a. mfree (mem s2 a)) (chunk # post) = [chunk]"
    using stop by (simp_all add: m2c m1c)
  from fuse_in_chain [OF ch2, of cfg] obtain s3 where
    run3: "fuse cfg s2 b = ok s3"
    and ch3: "chain (mem s3) (heap_base cfg) (pre @ b # post)"
    and m3o: "\<forall>a. a \<noteq> b \<longrightarrow> mem s3 a = mem s2 a"
    and fr3: "mfree (mem s3 b) = mfree (mem s2 b)"
    and sz3: "msize (mem s3 b) = msize (mem s2 b) + (msize (mem s2 chunk) + META cfg)"
    and f3: "freespace s3 = freespace s2 + META cfg"
    and l3: "lastp s3 = (if post = [] then b else lastp s2)"
    unfolding dw tw by auto
  have free3: "freespace s3 = freespace s" using f3 f2 by simp
  have size3: "msize (mem s3 b) = msize (mem s b)"
    using sz3 by (simp add: m2 m2c m1c m1b cneb)
  have flag3: "mfree (mem s3 b) = mfree (mem s b)"
    using fr3 bfree by (simp add: m2)
  from ch3 have "chain (mem s3) b (b # post)" by (auto simp: chain_append)
  then have next3: "mnext (mem s3 b) = mnext (mem s b)"
    using chain_next nx by simp
  have m3b: "mem s3 b = mem s b"
    using size3 flag3 next3 by (intro metadata.equality) simp_all
  have m3_other: "\<And>a. a \<in> set pre \<or> a \<in> set post \<Longrightarrow> mem s3 a = mem s a"
  proof -
    fix a assume a: "a \<in> set pre \<or> a \<in> set post"
    with b_pre b_post c_pre c_post have "a \<noteq> b" "a \<noteq> chunk" by auto
    with m3o m1o show "mem s3 a = mem s a" by (simp add: m2)
  qed
  have same: "\<forall>a\<in>set (pre @ b # post). mem s3 a = mem s a"
    using m3b m3_other by auto
  have last3: "lastp s3 = lastp s"
  proof (cases "post = []")
    case True
    with l3 tail show ?thesis by simp
  next
    case False
    with l3 l2 l1 nx post_nz show ?thesis by simp
  qed
  have no_prev: "\<not> (prev \<noteq> 0 \<and> mfree (mem s3 prev))"
  proof (cases "pre = []")
    case True
    then show ?thesis by (simp add: prev_def)
  next
    case False
    then have "mem s3 prev = mem s prev" using m3_other by (simp add: prev_def)
    with False prev_nf show ?thesis by (simp add: prev_def)
  qed
  have naf3: "no_adjacent_free (mem s3) (pre @ b # post)"
    using naf no_adjacent_free_cong [of "pre @ b # post" "mem s3" "mem s"] same by simp
  have run5: "deframent_my_heap cfg s3 = ok s3"
    unfolding deframent_my_heap_def using ch3 naf3 by (rule defrag_loop_id)
  have "my_free cfg s1 (b + META cfg) = ok (FreeFor (msize (mem s1 b)), s3)"
    using run2 run3 no_prev run5 by simp
  with run1 free3 ch3 same last3 show ?thesis
    by (auto simp: free_space_in_my_heap_def)
qed

lemma round_trip_exact:
  assumes ch: "chain (mem s) (heap_base cfg) (pre @ b # post)"
    and ord: "sorted_wrt (<) (pre @ b # post)"
    and tail: "lastp s = last (pre @ b # post)"
    and nf: "\<not> first s"
    and naf: "no_adjacent_free (mem s) (pre @ b # post)"
    and n: "n \<noteq> 0"
    and fit: "fits (mem s) n b" "\<forall>a\<in>set pre. \<not> fits (mem s) n a"
    and thr: "\<not> n + THRESHOLD cfg \<le> msize (mem s b)"
    and pnz: "b + META cfg \<noteq> 0"
    and exact: "msize (mem s b) = n"
  shows "\<exists>s1 r s2. my_malloc cfg s n = ok (b + META cfg, s1) \<and>
      my_free cfg s1 (b + META cfg) = ok (r, s2) \<and>
      free_space_in_my_heap s2 = free_space_in_my_heap s \<and>
      chain (mem s2) (heap_base cfg) (pre @ b # post) \<and>
      (\<forall>a\<in>set (pre @ b # post). mem s2 a = mem s a) \<and> lastp s2 = lastp s"
proof -
  from ch have pp: "path (mem s) (heap_base cfg) pre b" and cb: "chain (mem s) b (b # post)"
    by (auto simp: chain_append)
  from cb have bnz: "b \<noteq> 0" by auto
  from ord have pre_lt: "\<forall>a\<in>set pre. a < b" and post_gt: "\<forall>a\<in>set post. b < a"
    by (auto simp: sorted_wrt_append)
  from fit(1) have bfree: "mfree (mem s b)" by (simp add: fits_def)
  have sf: "search_freespace cfg s n = Some b"
    by (rule search_freespace_first_fit [OF ch fit])
  define s1 where "s1 = set_free (s\<lparr>freespace := freespace s - n\<rparr>) b False"
  have run1: "my_malloc cfg s n = ok (b + META cfg, s1)"
    unfolding s1_def by (rule my_malloc_unsplit_path [OF sf bnz nf n thr])
  have ch1: "chain (mem s1) (heap_base cfg) (pre @ b # post)"
    using ch chain_cong [of "pre @ b # post" "mem s1" "mem s"] by (simp add: s1_def set_free_def)
  have base_le: "heap_base cfg \<le> b"
  proof (cases pre)
    case Nil
    with pp show ?thesis by simp
  next
    case (Cons a pre')
    with pp have "heap_base cfg = a" by simp
    with Cons pre_lt show ?thesis by auto
  qed
  have le_last: "b \<le> lastp s1"
  proof (cases "post = []")
    case True
    with tail show ?thesis by (simp add: s1_def set_free_def)
  next
    case False
    then have "last post \<in> set post" by simp
    with post_gt have "b < last post" by blast
    with tail False show ?thesis by (simp add: s1_def set_free_def)
  qed
  define s2 where "s2 = (set_free s1 b True)\<lparr>freespace := freespace s1 + msize (mem s1 b)\<rparr>"
  define prev where "prev = (if pre = [] then 0 else last pre)"
  have bb: "b = b + META cfg - META cfg" by simp
  have run2: "my_free cfg s1 (b + META cfg) =
      bindR (fuse cfg s2 b) (\<lambda>s3.
        bindR (if prev \<noteq> 0 \<and> mfree (mem s3 prev) then fuse cfg s3 prev else ok s3) (\<lambda>s4.
        bindR (deframent_my_heap cfg s4) (\<lambda>s5.
        ok (FreeFor (msize (mem s1 b)), s5))))"
    using base_le le_last
    by (intro my_free_valid [OF ch1 pnz bb _ prev_def s2_def]) simp
  have m2: "mem s2 = mem s"
    using bfree by (simp add: s2_def s1_def set_free_def fun_eq_iff)
  have f2: "freespace s2 = freespace s" and l2: "lastp s2 = lastp s"
    using exact by (simp_all add: s2_def s1_def set_free_def)
  have ch2: "chain (mem s2) (heap_base cfg) (pre @ b # post)"
    using ch by (simp add: m2)
  from no_adjacent_free_middle [OF naf bfree]
  have prev_nf: "pre \<noteq> [] \<longrightarrow> \<not> mfree (mem s (last pre))"
    and next_nf: "post \<noteq> [] \<longrightarrow> \<not> mfree (mem s (hd post))" by auto
  have stop: "dropWhile (\<lambda>a. mfree (mem s2 a)) post = post"
    "takeWhile (\<lambda>a. mfree (mem s2 a)) post = []"
    using while_stop [of post "\<lambda>a. mfree (mem s2 a)"] next_nf by (auto simp: m2)
  from fuse_in_chain [OF ch2, of cfg] obtain s3 where
    run3: "fuse cfg s2 b = ok s3"
    and ch3: "chain (mem s3) (heap_base cfg) (pre @ b # post)"
    and m3o: "\<forall>a. a \<noteq> b \<longrightarrow> mem s3 a = mem s2 a"
    and fr3: "mfree (mem s3 b) = mfree (mem s2 b)"
    and sz3: "msize (mem s3 b) = msize (mem s2 b)"
    and f3: "freespace s3 = freespace s2"
    and l3: "lastp s3 = (if post = [] then b else lastp s2)"
    unfolding stop by auto
  have nx: "mnext (mem s b) = (if post = [] then 0 else hd post)"
    using cb by (rule chain_next)
  from ch3 have "chain (mem s3) b (b # post)" by (auto simp: chain_append)
  then have next3: "mnext (mem s3 b) = mnext (mem s b)"
    using chain_next nx by simp
  have m3b: "mem s3 b = mem s b"
    using sz3 fr3 next3 by (intro metadata.equality) (simp_all add: m2)
  have same: "\<forall>a. mem s3 a = mem s a"
    using m3b m3o by (metis m2)
  have last3: "lastp s3 = lastp s"
    using l3 l2 tail by simp
  have no_prev: "\<not> (prev \<noteq> 0 \<and> mfree (mem s3 prev))"
    using prev_nf same by (simp add: prev_def)
  have naf3: "no_adjacent_free (mem s3) (pre @ b # post)"
    using naf no_adjacent_free_cong [of "pre @ b # post" "mem s3" "mem s"] same by simp
  have run5: "deframent_my_heap cfg s3 = ok s3"
    unfolding deframent_my_heap_def using ch3 naf3 by (rule defrag_loop_id)
  have "my_free cfg s1 (b + META cfg) = ok (FreeFor (msize (mem s1 b)), s3)"
    using run2 run3 no_prev run5 by simp
  with run1 f3 f2 ch3 same last3 show ?thesis
    by (auto simp: free_space_in_my_heap_def)
qed

section \<open>The free-space counter\<close>

lemma allocated_total_Nil [simp]: "allocated_total m [] = 0"
  by (simp add: allocated_total_def)

lemma allocated_total_Cons [simp]:
  "allocated_total m (a # as) = (if mfree (m a) then 0 else msize (m a)) + allocated_total m as"
  by (simp add: allocated_total_def)

lemma allocated_total_append [simp]:
  "allocated_total m (as @ bs) = allocated_total m as + allocated_total m bs"
  by (simp add: allocated_total_def)

lemma allocated_total_cong:
  "(\<And>a. a \<in> set as \<Longrightarrow> m' a = m a) \<Longrightarrow> allocated_total m' as = allocated_total m as"
  by (induction as) auto

lemma allocated_total_free: "(\<And>a. a \<in> set as \<Longrightarrow> mfree (m a)) \<Longrightarrow> allocated_total m as = 0"
  by (induction as) auto

lemma free_total_Nil [simp]: "free_total m [] = 0"
  by (simp add: free_total_def)

lemma free_total_Cons [simp]:
  "free_total m (a # as) = (if mfree (m a) then msize (m a) else 0) + free_total m as"
  by (simp add: free_total_def)

lemma header_total_Nil [simp]: "header_total cfg [] = 0"
  by (simp add: header_total_def)

lemma header_total_Cons [simp]: "header_total cfg (a # as) = META cfg + header_total cfg as"
  by (simp add: header_total_def algebra_simps)

lemma header_total_append [simp]:
  "header_total cfg (as @ bs) = header_total cfg as + header_total cfg bs"
  by (simp add: header_total_def algebra_simps)

lemma whole_total:
  "sum_list (map (\<lambda>a. META cfg + msize (m a)) as)
     = header_total cfg as + free_total m as + allocated_total m as"
  by (induction as) auto

lemma counter_tracks_conservation:
  "counter_tracks cfg s as \<longleftrightarrow> conservation_total cfg s as = BUFF_SIZE cfg"
  by (auto simp: counter_tracks_def unclaimed_def conservation_total_def whole_total algebra_simps)

lemma last_dropWhile: "dropWhile P xs \<noteq> [] \<Longrightarrow> last (dropWhile P xs) = last xs"
  by (induction xs) (auto split: if_splits)

lemma unat_absorb:
  fixes sz :: "64 word"
  assumes "unat sz + sum_list (map (\<lambda>b. unat (META cfg) + unat (msize (m b))) tw) < 2 ^ 64"
  shows "unat (sz + sum_list (map (\<lambda>b. msize (m b) + META cfg) tw))
     = unat sz + sum_list (map (\<lambda>b. unat (META cfg) + unat (msize (m b))) tw)"
  using assms
proof (induction tw arbitrary: sz)
  case Nil
  then show ?case by simp
next
  case (Cons b bs)
  have 1: "unat (msize (m b) + META cfg) = unat (msize (m b)) + unat (META cfg)"
    using Cons.prems by (intro unat_plus) simp
  have 2: "unat (sz + (msize (m b) + META cfg)) = unat sz + (unat (msize (m b)) + unat (META cfg))"
    using Cons.prems 1 by (subst unat_plus) simp_all
  have "unat ((sz + (msize (m b) + META cfg)) + sum_list (map (\<lambda>b. msize (m b) + META cfg) bs))
     = unat (sz + (msize (m b) + META cfg)) + sum_list (map (\<lambda>b. unat (META cfg) + unat (msize (m b))) bs)"
    using Cons.prems 2 by (intro Cons.IH) simp
  with 2 show ?case by (simp add: add.assoc)
qed

lemma absorb_laid_out:
  assumes lo: "laid_out cfg m (pre @ a # tw @ dw)" and ae: "arena_end cfg < 2 ^ 64"
    and a_pre: "a \<notin> set pre" and a_post: "a \<notin> set (tw @ dw)"
    and o: "\<forall>b. b \<noteq> a \<longrightarrow> m' b = m b"
    and sz: "msize (m' a) = msize (m a) + sum_list (map (\<lambda>b. msize (m b) + META cfg) tw)"
  shows "laid_out cfg m' (pre @ a # dw)"
proof -
  define B where "B = unat (heap_base cfg)"
  define E where "E = span_end cfg m (block_end cfg m a) tw"
  from lo have tp: "tiles cfg m B pre" and ua: "unat a = span_end cfg m B pre"
    and ttw: "tiles cfg m (block_end cfg m a) tw" and tdw: "tiles cfg m E dw"
    and bound: "span_end cfg m E dw \<le> arena_end cfg"
    by (simp_all add: laid_out_def tiles_append span_end_append B_def E_def)
  have Esum: "E = block_end cfg m a + sum_list (map (\<lambda>b. unat (META cfg) + unat (msize (m b))) tw)"
    unfolding E_def using ttw by (rule span_end_sum)
  have "E \<le> span_end cfg m E dw" using tdw by (rule span_end_ge)
  with bound ae have Elt: "E < 2 ^ 64" by simp
  have "unat (msize (m a)) + sum_list (map (\<lambda>b. unat (META cfg) + unat (msize (m b))) tw) < 2 ^ 64"
    using Elt Esum by (simp add: block_end_def)
  then have "unat (msize (m' a))
      = unat (msize (m a)) + sum_list (map (\<lambda>b. unat (META cfg) + unat (msize (m b))) tw)"
    unfolding sz by (rule unat_absorb)
  then have be: "block_end cfg m' a = E" by (simp add: Esum block_end_def)
  have same_pre: "\<And>b. b \<in> set pre \<Longrightarrow> msize (m' b) = msize (m b)"
    using o a_pre by auto
  have same_dw: "\<And>b. b \<in> set dw \<Longrightarrow> msize (m' b) = msize (m b)"
    using o a_post by auto
  have "tiles cfg m' B pre" using tp tiles_cong [of pre m' m cfg B] same_pre by simp
  moreover have "span_end cfg m' B pre = span_end cfg m B pre"
    by (rule span_end_cong) (simp add: same_pre)
  moreover have "tiles cfg m' E dw" using tdw tiles_cong [of dw m' m cfg E] same_dw by simp
  moreover have "span_end cfg m' E dw = span_end cfg m E dw"
    by (rule span_end_cong) (simp add: same_dw)
  ultimately show ?thesis
    using ua bound be by (simp add: laid_out_def tiles_append span_end_append B_def)
qed

lemma fuse_keeps:
  assumes ch: "chain (mem s) p (pre @ a # post)" and tl: "lastp s = last (pre @ a # post)"
    and fr: "mfree (mem s a)"
    and lo: "laid_out cfg (mem s) (pre @ a # post)" and ae: "arena_end cfg < 2 ^ 64"
  shows "\<exists>s' post'. fuse cfg s a = ok s' \<and> chain (mem s') p (pre @ a # post') \<and>
     lastp s' = last (pre @ a # post') \<and>
     mnext (mem s' a) = (if post' = [] then 0 else hd post') \<and>
     length post' \<le> length post \<and>
     conservation_total cfg s' (pre @ a # post') = conservation_total cfg s (pre @ a # post) \<and>
     laid_out cfg (mem s') (pre @ a # post') \<and>
     first s' = first s"
proof -
  define tw where "tw = takeWhile (\<lambda>b. mfree (mem s b)) post"
  define dw where "dw = dropWhile (\<lambda>b. mfree (mem s b)) post"
  have post: "post = tw @ dw" by (simp add: tw_def dw_def)
  from fuse_in_chain [OF ch, of cfg] obtain s' where
    run: "fuse cfg s a = ok s'"
    and ch': "chain (mem s') p (pre @ a # dw)"
    and o: "\<forall>b. b \<noteq> a \<longrightarrow> mem s' b = mem s b"
    and fr': "mfree (mem s' a) = mfree (mem s a)"
    and sz': "msize (mem s' a) = msize (mem s a)
        + sum_list (map (\<lambda>b. msize (mem s b) + META cfg) tw)"
    and f': "freespace s' = freespace s + of_nat (length tw) * META cfg"
    and l': "lastp s' = (if dw = [] then a else lastp s)"
    and fi: "first s' = first s"
    unfolding tw_def dw_def by blast
  from ch have "distinct (pre @ a # post)" by (rule chain_distinct)
  then have a_pre: "a \<notin> set pre" and a_post: "a \<notin> set post" by auto
  have last': "lastp s' = last (pre @ a # dw)"
  proof (cases "dw = []")
    case True
    with l' show ?thesis by simp
  next
    case False
    then have "last dw = last post" unfolding dw_def by (rule last_dropWhile)
    moreover from False have "post \<noteq> []" by (auto simp: dw_def)
    ultimately show ?thesis using l' tl False by simp
  qed
  from ch' have "chain (mem s') a (a # dw)" by (auto simp: chain_append)
  then have nx: "mnext (mem s' a) = (if dw = [] then 0 else hd dw)" by (rule chain_next)
  have len: "length dw \<le> length post" by (simp add: post)
  have "allocated_total (mem s') pre = allocated_total (mem s) pre"
    by (rule allocated_total_cong) (use o a_pre in auto)
  moreover have "allocated_total (mem s') dw = allocated_total (mem s) dw"
    by (rule allocated_total_cong) (use o a_post post in auto)
  moreover have "allocated_total (mem s) tw = 0"
    by (rule allocated_total_free) (auto simp: tw_def dest: set_takeWhileD)
  ultimately have al: "allocated_total (mem s') (pre @ a # dw) = allocated_total (mem s) (pre @ a # post)"
    using fr fr' by (simp add: post)
  have hd: "header_total cfg (pre @ a # post) = header_total cfg (pre @ a # dw) + of_nat (length tw) * META cfg"
    by (simp add: post header_total_def algebra_simps)
  have "conservation_total cfg s' (pre @ a # dw) = conservation_total cfg s (pre @ a # post)"
    unfolding conservation_total_def free_space_in_my_heap_def al hd f' by (simp add: algebra_simps)
  moreover have "laid_out cfg (mem s') (pre @ a # dw)"
    by (rule absorb_laid_out [OF lo [unfolded post] ae a_pre a_post [unfolded post] o sz'])
  ultimately show ?thesis using run ch' last' nx len fi by blast
qed

lemma defrag_loop_keeps:
  assumes "chain (mem s) p (pre @ rest)" "lastp s = last (pre @ rest)" "pre @ rest \<noteq> []"
    "laid_out cfg (mem s) (pre @ rest)" "arena_end cfg < 2 ^ 64"
  shows "\<exists>s' rest'. defrag_loop cfg s (if rest = [] then 0 else hd rest) = ok s' \<and>
     chain (mem s') p (pre @ rest') \<and> lastp s' = last (pre @ rest') \<and> pre @ rest' \<noteq> [] \<and>
     conservation_total cfg s' (pre @ rest') = conservation_total cfg s (pre @ rest) \<and>
     laid_out cfg (mem s') (pre @ rest') \<and>
     first s' = first s"
  using assms
proof (induction "length rest" arbitrary: s pre rest rule: less_induct)
  case less
  note ae = less.prems(5)
  show ?case
  proof (cases rest)
    case Nil
    have "defrag_loop cfg s 0 = ok s" by (subst defrag_loop.simps) simp
    with Nil less.prems show ?thesis
      by (intro exI [of _ s] exI [of _ "[]"]) simp
  next
    case (Cons a r)
    from less.prems(1) Cons have ca: "chain (mem s) a (a # r)" by (auto simp: chain_append)
    then have anz: "a \<noteq> 0" by simp
    from ca have nx: "mnext (mem s a) = (if r = [] then 0 else hd r)" by (rule chain_next)
    show ?thesis
    proof (cases "mnext (mem s a) \<noteq> 0 \<and> mfree (mem s a) \<and> mfree (mem s (mnext (mem s a)))")
      case True
      from less.prems Cons have ch: "chain (mem s) p (pre @ a # r)"
        and tl: "lastp s = last (pre @ a # r)"
        and lo: "laid_out cfg (mem s) (pre @ a # r)" by auto
      from True have fr: "mfree (mem s a)" by simp
      from fuse_keeps [OF ch tl fr lo ae] obtain s1 r' where
        f: "fuse cfg s a = ok s1"
        and c1: "chain (mem s1) p (pre @ a # r')"
        and l1: "lastp s1 = last (pre @ a # r')"
        and n1: "mnext (mem s1 a) = (if r' = [] then 0 else hd r')"
        and len: "length r' \<le> length r"
        and d1: "conservation_total cfg s1 (pre @ a # r') = conservation_total cfg s (pre @ a # r)"
        and lo1: "laid_out cfg (mem s1) (pre @ a # r')"
        and fi1: "first s1 = first s" by blast
      have lt: "length r' < length rest" using len Cons by simp
      from c1 l1 lo1 have c1': "chain (mem s1) p ((pre @ [a]) @ r')"
        and l1': "lastp s1 = last ((pre @ [a]) @ r')" and ne: "(pre @ [a]) @ r' \<noteq> []"
        and lo1': "laid_out cfg (mem s1) ((pre @ [a]) @ r')" by auto
      from less.hyps [OF lt c1' l1' ne lo1' ae] obtain s' r'' where
        r: "defrag_loop cfg s1 (if r' = [] then 0 else hd r') = ok s'"
        and rest: "chain (mem s') p ((pre @ [a]) @ r'')" "lastp s' = last ((pre @ [a]) @ r'')"
          "conservation_total cfg s' ((pre @ [a]) @ r'') = conservation_total cfg s1 ((pre @ [a]) @ r')"
          "laid_out cfg (mem s') ((pre @ [a]) @ r'')"
          "first s' = first s1" by blast
      have run: "defrag_loop cfg s (if rest = [] then 0 else hd rest) = ok s'"
        using True anz f r n1 Cons
        by (subst defrag_loop.simps) (simp add: ok_def)
      from run rest d1 fi1 Cons show ?thesis
        by (intro exI [of _ s'] exI [of _ "a # r''"]) simp
    next
      case False
      have lt: "length r < length rest" using Cons by simp
      from less.prems Cons have c1': "chain (mem s) p ((pre @ [a]) @ r)"
        and l1': "lastp s = last ((pre @ [a]) @ r)" and ne: "(pre @ [a]) @ r \<noteq> []"
        and lo1': "laid_out cfg (mem s) ((pre @ [a]) @ r)" by auto
      from less.hyps [OF lt c1' l1' ne lo1' ae] obtain s' r'' where
        r: "defrag_loop cfg s (if r = [] then 0 else hd r) = ok s'"
        and rest: "chain (mem s') p ((pre @ [a]) @ r'')" "lastp s' = last ((pre @ [a]) @ r'')"
          "conservation_total cfg s' ((pre @ [a]) @ r'') = conservation_total cfg s ((pre @ [a]) @ r)"
          "laid_out cfg (mem s') ((pre @ [a]) @ r'')"
          "first s' = first s" by blast
      have run: "defrag_loop cfg s (if rest = [] then 0 else hd rest) = ok s'"
        using False anz r nx Cons
        by (subst defrag_loop.simps) auto
      from run rest Cons show ?thesis
        by (intro exI [of _ s'] exI [of _ "a # r''"]) simp
    qed
  qed
qed

lemma allocated_total_fields:
  "(\<And>a. a \<in> set as \<Longrightarrow> mfree (m' a) = mfree (m a) \<and> msize (m' a) = msize (m a)) \<Longrightarrow>
   allocated_total m' as = allocated_total m as"
  by (induction as) auto

lemma laid_out_cong:
  "(\<And>a. a \<in> set as \<Longrightarrow> msize (m' a) = msize (m a)) \<Longrightarrow> laid_out cfg m' as = laid_out cfg m as"
  using tiles_cong [of as m' m cfg] span_end_cong [of as m' m cfg] by (simp add: laid_out_def)

lemma tracked_formed:
  "formed cfg s as \<Longrightarrow> conservation_total cfg s as = BUFF_SIZE cfg \<Longrightarrow> tracked cfg s as"
  by (simp add: tracked_def formed_def shaped_def counter_tracks_conservation)

lemma chain_base: "chain m p as \<Longrightarrow> as \<noteq> [] \<Longrightarrow> p = hd as"
  by (cases as) auto

lemma deframent_keeps:
  assumes fo: "formed cfg s as" and ae: "arena_end cfg < 2 ^ 64"
  shows "\<exists>s' as'. deframent_my_heap cfg s = ok s' \<and> formed cfg s' as' \<and>
     conservation_total cfg s' as' = conservation_total cfg s as"
proof -
  from fo have ch: "chain (mem s) (heap_base cfg) ([] @ as)" and tl: "lastp s = last ([] @ as)"
    and ne: "[] @ as \<noteq> []" and nf: "\<not> first s" and lo: "laid_out cfg (mem s) ([] @ as)"
    by (simp_all add: formed_def shaped_def)
  from ch ne have hb: "heap_base cfg = hd as" using chain_base by simp
  from defrag_loop_keeps [OF ch tl ne lo ae] ne hb nf show ?thesis
    by (auto simp: deframent_my_heap_def formed_def shaped_def)
qed

lemma my_free_init:
  assumes hb: "heap_base cfg \<noteq> 0" and nz: "ptr \<noteq> 0"
  shows "my_free cfg (init cfg) ptr = ok (InvalidAddress, init cfg)"
proof -
  have ch: "chain (mem (init cfg)) (heap_base cfg) [heap_base cfg]"
    using hb by (simp add: init_def zero_metadata_def)
  have "\<not> (heap_base cfg \<le> ptr - META cfg \<and> ptr - META cfg \<le> lastp (init cfg))"
    using hb by (auto simp: init_def)
  then have "my_free cfg (init cfg) ptr =
      bindR (deframent_my_heap cfg (init cfg)) (\<lambda>s1. ok (InvalidAddress, s1))"
    using my_free_invalid [OF ch nz] by blast
  moreover have "deframent_my_heap cfg (init cfg) = ok (init cfg)"
    unfolding deframent_my_heap_def using ch by (rule defrag_loop_id) simp
  ultimately show ?thesis by simp
qed

lemma my_free_formed:
  assumes fo: "formed cfg s as" and ae: "arena_end cfg < 2 ^ 64"
    and nz: "ptr \<noteq> 0" and rel: "releasable cfg s as ptr"
  shows "\<exists>r s' as'. my_free cfg s ptr = ok (r, s') \<and> formed cfg s' as' \<and>
     conservation_total cfg s' as' = conservation_total cfg s as"
proof (cases "heap_base cfg \<le> ptr - META cfg \<and> ptr - META cfg \<le> lastp s \<and> ptr - META cfg \<in> set as")
  case False
  from fo have ch: "chain (mem s) (heap_base cfg) as" by (simp add: formed_def shaped_def)
  from False have "my_free cfg s ptr = bindR (deframent_my_heap cfg s) (\<lambda>s1. ok (InvalidAddress, s1))"
    using my_free_invalid [OF ch nz] by blast
  moreover from deframent_keeps [OF fo ae] obtain s' as' where
    "deframent_my_heap cfg s = ok s'" "formed cfg s' as'"
    "conservation_total cfg s' as' = conservation_total cfg s as" by blast
  ultimately have "my_free cfg s ptr = ok (InvalidAddress, s') \<and> formed cfg s' as' \<and>
     conservation_total cfg s' as' = conservation_total cfg s as" by simp
  then show ?thesis by blast
next
  case True
  define b where "b = ptr - META cfg"
  from fo have ch: "chain (mem s) (heap_base cfg) as" and tl: "lastp s = last as"
    and nf: "\<not> first s" and lo: "laid_out cfg (mem s) as"
    by (simp_all add: formed_def shaped_def)
  from True obtain pre post where as: "as = pre @ b # post"
    unfolding b_def by (auto simp: in_set_conv_decomp)
  from True have rng: "heap_base cfg \<le> b \<and> b \<le> lastp s" by (simp add: b_def)
  from True rel have alloc: "\<not> mfree (mem s b)" by (simp add: releasable_def b_def)
  from ch have dist: "distinct as" by (rule chain_distinct)
  then have b_pre: "b \<notin> set pre" and b_post: "b \<notin> set post" by (auto simp: as)
  define s2 where "s2 = (set_free s b True)\<lparr>freespace := freespace s + msize (mem s b)\<rparr>"
  define prev where "prev = (if pre = [] then 0 else last pre)"
  have run: "my_free cfg s ptr =
      bindR (fuse cfg s2 b) (\<lambda>s3.
        bindR (if prev \<noteq> 0 \<and> mfree (mem s3 prev) then fuse cfg s3 prev else ok s3) (\<lambda>s4.
        bindR (deframent_my_heap cfg s4) (\<lambda>s5.
        ok (FreeFor (msize (mem s b)), s5))))"
    by (rule my_free_valid [OF ch [unfolded as] nz b_def rng prev_def s2_def])
  have m2: "mem s2 = (mem s)(b := (mem s b)\<lparr>mfree := True\<rparr>)"
    and f2: "freespace s2 = freespace s + msize (mem s b)" and l2: "lastp s2 = lastp s"
    and fi2: "first s2 = first s"
    by (simp_all add: s2_def set_free_def)
  have c2: "chain (mem s2) (heap_base cfg) (pre @ b # post)"
    using ch chain_cong [of as "mem s2" "mem s"] by (simp add: m2 as)
  have t2: "lastp s2 = last (pre @ b # post)" using tl l2 as by simp
  have fr2: "mfree (mem s2 b)" by (simp add: m2)
  have "laid_out cfg (mem s2) as = laid_out cfg (mem s) as"
    by (rule laid_out_cong) (simp add: m2)
  with lo as have lo2: "laid_out cfg (mem s2) (pre @ b # post)" by simp
  have "allocated_total (mem s2) pre = allocated_total (mem s) pre"
    by (rule allocated_total_cong) (use b_pre in \<open>auto simp: m2\<close>)
  moreover have "allocated_total (mem s2) post = allocated_total (mem s) post"
    by (rule allocated_total_cong) (use b_post in \<open>auto simp: m2\<close>)
  ultimately have d2: "conservation_total cfg s2 (pre @ b # post) = conservation_total cfg s as"
    using alloc by (simp add: conservation_total_def free_space_in_my_heap_def as f2 m2)
  from fuse_keeps [OF c2 t2 fr2 lo2 ae] obtain s3 post' where
    f3: "fuse cfg s2 b = ok s3" and c3: "chain (mem s3) (heap_base cfg) (pre @ b # post')"
    and t3: "lastp s3 = last (pre @ b # post')"
    and d3: "conservation_total cfg s3 (pre @ b # post') = conservation_total cfg s2 (pre @ b # post)"
    and lo3: "laid_out cfg (mem s3) (pre @ b # post')"
    and fi3: "first s3 = first s2" by blast
  have "\<exists>s4 as4. (if prev \<noteq> 0 \<and> mfree (mem s3 prev) then fuse cfg s3 prev else ok s3) = ok s4
      \<and> formed cfg s4 as4 \<and> conservation_total cfg s4 as4 = conservation_total cfg s as"
  proof (cases "prev \<noteq> 0 \<and> mfree (mem s3 prev)")
    case False
    then have "(if prev \<noteq> 0 \<and> mfree (mem s3 prev) then fuse cfg s3 prev else ok s3) = ok s3"
      by (rule if_not_P)
    moreover have "formed cfg s3 (pre @ b # post')"
      using c3 t3 lo3 fi3 fi2 nf by (simp add: formed_def shaped_def)
    moreover have "conservation_total cfg s3 (pre @ b # post') = conservation_total cfg s as"
      using d3 d2 by simp
    ultimately show ?thesis by blast
  next
    case True
    then have "pre \<noteq> []" by (auto simp: prev_def)
    then have pre: "pre = butlast pre @ [prev]" by (simp add: prev_def)
    then have eq: "pre @ b # post' = butlast pre @ prev # (b # post')"
      by (metis append.assoc append_Cons append_Nil)
    from True have pf: "mfree (mem s3 prev)" by simp
    from fuse_keeps [OF c3 [unfolded eq] t3 [unfolded eq] pf lo3 [unfolded eq] ae]
    obtain s4 post'' where
      r4: "fuse cfg s3 prev = ok s4" "chain (mem s4) (heap_base cfg) (butlast pre @ prev # post'')"
      "lastp s4 = last (butlast pre @ prev # post'')"
      "conservation_total cfg s4 (butlast pre @ prev # post'')
         = conservation_total cfg s3 (butlast pre @ prev # (b # post'))"
      "laid_out cfg (mem s4) (butlast pre @ prev # post'')"
      "first s4 = first s3" by blast
    from True have "(if prev \<noteq> 0 \<and> mfree (mem s3 prev) then fuse cfg s3 prev else ok s3)
        = fuse cfg s3 prev"
      by (rule if_P)
    then have "(if prev \<noteq> 0 \<and> mfree (mem s3 prev) then fuse cfg s3 prev else ok s3) = ok s4"
      using r4(1) by (rule trans)
    moreover have "formed cfg s4 (butlast pre @ prev # post'')"
      using r4 fi3 fi2 nf by (simp add: formed_def shaped_def)
    moreover have "conservation_total cfg s4 (butlast pre @ prev # post'') = conservation_total cfg s as"
      using r4(4) d3 d2 eq by simp
    ultimately show ?thesis by blast
  qed
  then obtain s4 as4 where f4: "(if prev \<noteq> 0 \<and> mfree (mem s3 prev) then fuse cfg s3 prev else ok s3) = ok s4"
    and sh4: "formed cfg s4 as4" and d4: "conservation_total cfg s4 as4 = conservation_total cfg s as"
    by blast
  from deframent_keeps [OF sh4 ae] obtain s5 as5 where
    "deframent_my_heap cfg s4 = ok s5" "formed cfg s5 as5"
    "conservation_total cfg s5 as5 = conservation_total cfg s4 as4" by blast
  with run f3 f4 d4 have "my_free cfg s ptr = ok (FreeFor (msize (mem s b)), s5) \<and> formed cfg s5 as5 \<and>
     conservation_total cfg s5 as5 = conservation_total cfg s as" by simp
  then show ?thesis by blast
qed

lemma find_decompose:
  "List.find P xs = Some x \<Longrightarrow> \<exists>ys zs. xs = ys @ x # zs \<and> P x \<and> (\<forall>y\<in>set ys. \<not> P y)"
proof (induction xs)
  case Nil
  then show ?case by simp
next
  case (Cons a xs)
  show ?case
  proof (cases "P a")
    case True
    with Cons.prems have "a = x" by simp
    with True show ?thesis by (intro exI [of _ "[]"] exI [of _ xs]) simp
  next
    case False
    with Cons obtain ys zs where "xs = ys @ x # zs" "P x" "\<forall>y\<in>set ys. \<not> P y" by auto
    with False show ?thesis by (intro exI [of _ "a # ys"] exI [of _ zs]) simp
  qed
qed

lemma my_malloc_first_call:
  assumes sa: "sane cfg" and n: "n \<noteq> 0"
    and cap: "unat (META cfg) + unat n \<le> unat (BUFF_SIZE cfg)"
  shows "\<exists>s'. my_malloc cfg (init cfg) n = ok (heap_base cfg + META cfg, s') \<and>
     formed cfg s' [heap_base cfg] \<and>
     conservation_total cfg s' [heap_base cfg] = BUFF_SIZE cfg"
proof -
  from sa have hb: "heap_base cfg \<noteq> 0" by (simp add: sane_def)
  define s' where "s' = \<lparr>mem = (\<lambda>_. zero_metadata)(heap_base cfg := \<lparr>msize = n, mfree = False, mnext = 0\<rparr>),
     lastp = heap_base cfg, freespace = BUFF_SIZE cfg - (n + META cfg), first = False\<rparr>"
  have "my_malloc cfg (init cfg) n = ok (heap_base cfg + META cfg, s')"
    using hb n
    by (simp add: my_malloc_def init_def deref_def Let_def set_size_def set_next_def set_free_def
        zero_metadata_def s'_def)
  moreover have "formed cfg s' [heap_base cfg]"
    using hb cap
    by (simp add: formed_def shaped_def laid_out_def block_end_def arena_end_def s'_def)
  moreover have "conservation_total cfg s' [heap_base cfg] = BUFF_SIZE cfg"
    by (simp add: conservation_total_def free_space_in_my_heap_def s'_def)
  ultimately show ?thesis by blast
qed

lemma my_malloc_tail_path:
  assumes sh: "shaped cfg s as" and n: "n \<noteq> 0"
    and nofit: "\<forall>a\<in>set as. \<not> fits (mem s) n a"
    and blk: "block = msize (mem s (lastp s)) + (lastp s + META cfg)"
    and bnz: "block \<noteq> 0" and fresh: "block \<notin> set as"
  shows "\<exists>s'. my_malloc cfg s n = ok (block + META cfg, s') \<and>
     shaped cfg s' (as @ [block]) \<and>
     conservation_total cfg s' (as @ [block]) = conservation_total cfg s as \<and>
     mem s' block = \<lparr>msize = n, mfree = False, mnext = 0\<rparr> \<and>
     (\<forall>a\<in>set as. mfree (mem s' a) = mfree (mem s a) \<and> msize (mem s' a) = msize (mem s a)) \<and>
     (\<forall>a. a \<noteq> lastp s \<and> a \<noteq> block \<longrightarrow> mem s' a = mem s a) \<and>
     lastp s' = block \<and> freespace s' = freespace s - (n + META cfg)"
proof -
  from sh have nf: "\<not> first s" and ch: "chain (mem s) (heap_base cfg) as" and ne: "as \<noteq> []"
    and tl: "lastp s = last as" by (simp_all add: shaped_def)
  define l where "l = lastp s"
  from ne tl have as: "as = butlast as @ [l]" by (simp add: l_def)
  from ne tl have "l \<in> set as" by (simp add: l_def)
  with chain_nonzero [OF ch] fresh have lnz: "l \<noteq> 0" and lb: "block \<noteq> l" by auto
  from nofit have "List.find (fits (mem s) n) as = None" by (simp add: find_None_iff)
  with search_loop_chain [OF ch, of n] have sf: "search_freespace cfg s n = Some 0"
    by (simp add: search_freespace_def)
  define s' where "s' = set_free ((set_size (set_next ((set_next s l block)\<lparr>lastp := block\<rparr>) block 0) block n)
      \<lparr>freespace := freespace s - (n + META cfg)\<rparr>) block False"
  have run: "my_malloc cfg s n = ok (block + META cfg, s')"
    using sf nf n lnz bnz lb unfolding s'_def blk l_def
    by (simp add: my_malloc_def deref_def Let_def set_size_def set_next_def)
  have ml: "mem s' l = (mem s l)\<lparr>mnext := block\<rparr>"
    and mb: "mem s' block = \<lparr>msize = n, mfree = False, mnext = 0\<rparr>"
    and mo: "\<And>a. a \<noteq> l \<Longrightarrow> a \<noteq> block \<Longrightarrow> mem s' a = mem s a"
    and l': "lastp s' = block" and f': "freespace s' = freespace s - (n + META cfg)"
    and fi': "first s' = first s"
    using lb by (simp_all add: s'_def set_size_def set_next_def set_free_def)
  from ch have dist: "distinct as" by (rule chain_distinct)
  with as have "distinct (butlast as @ [l])" by metis
  then have l_bl: "l \<notin> set (butlast as)" by simp
  from fresh as have b_bl: "block \<notin> set (butlast as)" by (metis in_set_butlastD)
  from ch as have pp: "path (mem s) (heap_base cfg) (butlast as) l"
    by (metis chain_append chain_Cons)
  have same_bl: "\<And>a. a \<in> set (butlast as) \<Longrightarrow> mem s' a = mem s a"
    using mo l_bl b_bl by metis
  have "path (mem s') (heap_base cfg) (butlast as) l = path (mem s) (heap_base cfg) (butlast as) l"
    by (rule path_cong) (simp add: same_bl)
  with pp have pp': "path (mem s') (heap_base cfg) (butlast as) l" by simp
  have "chain (mem s') l [l, block]"
    using lnz bnz ml mb by simp
  with pp' have "chain (mem s') (heap_base cfg) (butlast as @ [l, block])"
    by (auto simp: chain_append)
  with as have ch': "chain (mem s') (heap_base cfg) (as @ [block])"
    by (metis append.assoc append_Cons append_Nil)
  have sh': "shaped cfg s' (as @ [block])"
    using ch' l' fi' nf by (simp add: shaped_def)
  have fields: "\<forall>a\<in>set as. mfree (mem s' a) = mfree (mem s a) \<and> msize (mem s' a) = msize (mem s a)"
  proof
    fix a assume "a \<in> set as"
    with fresh have "a \<noteq> block" by auto
    then show "mfree (mem s' a) = mfree (mem s a) \<and> msize (mem s' a) = msize (mem s a)"
      using ml mo by (cases "a = l") auto
  qed
  then have "allocated_total (mem s') as = allocated_total (mem s) as"
    by (intro allocated_total_fields) simp
  then have "conservation_total cfg s' (as @ [block]) = conservation_total cfg s as"
    by (simp add: conservation_total_def free_space_in_my_heap_def f' mb)
  moreover have "\<forall>a. a \<noteq> lastp s \<and> a \<noteq> block \<longrightarrow> mem s' a = mem s a"
    using mo by (simp add: l_def)
  ultimately show ?thesis using run sh' mb fields l' f' by blast
qed

lemma tail_block_fresh:
  assumes fo: "formed cfg s as" and sa: "sane cfg"
    and cap: "block_end cfg (mem s) (lastp s) + unat (META cfg) + unat n \<le> arena_end cfg"
    and blk: "block = msize (mem s (lastp s)) + (lastp s + META cfg)"
  shows "unat block = block_end cfg (mem s) (lastp s) \<and> block \<noteq> 0 \<and> block \<notin> set as \<and>
     span_end cfg (mem s) (unat (heap_base cfg)) as = block_end cfg (mem s) (lastp s)"
proof -
  from fo have sh: "shaped cfg s as" and lo: "laid_out cfg (mem s) as"
    by (simp_all add: formed_def)
  from sh have ne: "as \<noteq> []" and tl: "lastp s = last as" by (simp_all add: shaped_def)
  from sa have ae: "arena_end cfg < 2 ^ 64" and mp: "0 < META cfg" by (simp_all add: sane_def)
  have se: "span_end cfg (mem s) (unat (heap_base cfg)) as = block_end cfg (mem s) (lastp s)"
    using ne tl by (simp add: span_end_last)
  have lt: "block_end cfg (mem s) (lastp s) < 2 ^ 64" using cap ae by simp
  have "unat (lastp s + META cfg) = unat (lastp s) + unat (META cfg)"
    using lt by (intro unat_plus) (simp add: block_end_def)
  then have ub: "unat block = block_end cfg (mem s) (lastp s)"
    unfolding blk using lt by (subst unat_plus) (simp_all add: block_end_def)
  have "unat (lastp s) < block_end cfg (mem s) (lastp s)" using mp by (rule block_start_lt_end)
  with ub have bnz: "block \<noteq> 0" by auto
  have fresh: "block \<notin> set as"
  proof
    assume "block \<in> set as"
    moreover from lo have "tiles cfg (mem s) (unat (heap_base cfg)) as" by (simp add: laid_out_def)
    ultimately have "block_end cfg (mem s) block \<le> span_end cfg (mem s) (unat (heap_base cfg)) as"
      using tiles_member by blast
    with se ub have "block_end cfg (mem s) block \<le> unat block" by simp
    with block_start_lt_end [OF mp, of block "mem s"] show False by simp
  qed
  from ub bnz fresh se show ?thesis by simp
qed

lemma my_malloc_tail_formed:
  assumes fo: "formed cfg s as" and sa: "sane cfg" and n: "n \<noteq> 0"
    and nofit: "\<forall>a\<in>set as. \<not> fits (mem s) n a"
    and cap: "block_end cfg (mem s) (lastp s) + unat (META cfg) + unat n \<le> arena_end cfg"
  shows "\<exists>p s' as'. my_malloc cfg s n = ok (p, s') \<and> formed cfg s' as' \<and>
     conservation_total cfg s' as' = conservation_total cfg s as \<and>
     (\<forall>a\<in>set as. \<not> mfree (mem s a) \<longrightarrow> a \<in> set as' \<and> \<not> mfree (mem s' a))"
proof -
  from fo have sh: "shaped cfg s as" and lo: "laid_out cfg (mem s) as"
    by (simp_all add: formed_def)
  define block where "block = msize (mem s (lastp s)) + (lastp s + META cfg)"
  from tail_block_fresh [OF fo sa cap block_def]
  have ub: "unat block = block_end cfg (mem s) (lastp s)" and bnz: "block \<noteq> 0"
    and fresh: "block \<notin> set as"
    and se: "span_end cfg (mem s) (unat (heap_base cfg)) as = block_end cfg (mem s) (lastp s)"
    by simp_all
  from my_malloc_tail_path [OF sh n nofit block_def bnz fresh] obtain s' where
    run: "my_malloc cfg s n = ok (block + META cfg, s')"
    and sh': "shaped cfg s' (as @ [block])"
    and d': "conservation_total cfg s' (as @ [block]) = conservation_total cfg s as"
    and mb: "mem s' block = \<lparr>msize = n, mfree = False, mnext = 0\<rparr>"
    and fields: "\<forall>a\<in>set as. mfree (mem s' a) = mfree (mem s a) \<and> msize (mem s' a) = msize (mem s a)"
    by blast
  have t1: "tiles cfg (mem s') (unat (heap_base cfg)) as"
    using lo tiles_cong [of as "mem s'" "mem s" cfg] fields by (simp add: laid_out_def)
  have s1: "span_end cfg (mem s') (unat (heap_base cfg)) as = unat block"
    using se ub span_end_cong [of as "mem s'" "mem s" cfg] fields by simp
  have "laid_out cfg (mem s') (as @ [block])"
    using t1 s1 cap ub by (simp add: laid_out_def tiles_append span_end_append block_end_def mb)
  with sh' have "formed cfg s' (as @ [block])" by (simp add: formed_def)
  moreover have "\<forall>a\<in>set as. \<not> mfree (mem s a) \<longrightarrow> a \<in> set (as @ [block]) \<and> \<not> mfree (mem s' a)"
    using fields by simp
  ultimately show ?thesis using run d' by blast
qed

lemma my_malloc_split_formed:
  assumes fo: "formed cfg s (pre @ b # post)" and sa: "sane cfg" and n: "n \<noteq> 0"
    and fit: "fits (mem s) n b" "\<forall>a\<in>set pre. \<not> fits (mem s) n a"
    and thr: "n + THRESHOLD cfg \<le> msize (mem s b)"
    and room: "unat n + unat (META cfg) \<le> unat (msize (mem s b))"
  shows "\<exists>s' as'. my_malloc cfg s n = ok (b + META cfg, s') \<and> formed cfg s' as' \<and>
     conservation_total cfg s' as' = conservation_total cfg s (pre @ b # post) \<and>
     (\<forall>a\<in>set (pre @ b # post). \<not> mfree (mem s a) \<longrightarrow> a \<in> set as' \<and> \<not> mfree (mem s' a))"
proof -
  define chunk where "chunk = b + (META cfg + n)"
  from fo have sh: "shaped cfg s (pre @ b # post)" and lo: "laid_out cfg (mem s) (pre @ b # post)"
    by (simp_all add: formed_def)
  from sh have nf: "\<not> first s" and ch: "chain (mem s) (heap_base cfg) (pre @ b # post)"
    and tl: "lastp s = last (pre @ b # post)" by (simp_all add: shaped_def)
  from carve_inside [OF lo sa room chunk_def] have cnz: "chunk \<noteq> 0"
    and fresh: "chunk \<notin> set (pre @ b # post)" by auto
  from ch have pp: "path (mem s) (heap_base cfg) pre b" and cb: "chain (mem s) b (b # post)"
    by (auto simp: chain_append)
  from cb have bnz: "b \<noteq> 0" and cpost: "chain (mem s) (mnext (mem s b)) post" by auto
  from fresh have cneb: "chunk \<noteq> b" and c_pre: "chunk \<notin> set pre" and c_post: "chunk \<notin> set post"
    by auto
  from ch have "distinct (pre @ b # post)" by (rule chain_distinct)
  then have b_pre: "b \<notin> set pre" and b_post: "b \<notin> set post" by auto
  from fit(1) have bfree: "mfree (mem s b)" by (simp add: fits_def)
  have sf: "search_freespace cfg s n = Some b"
    by (rule search_freespace_first_fit [OF ch fit])
  from my_malloc_split_path [OF sf bnz nf n thr chunk_def cnz cneb] obtain s1 where
    run1: "my_malloc cfg s n = ok (b + META cfg, s1)"
    and m1c: "mem s1 chunk = \<lparr>msize = msize (mem s b) - (n + META cfg), mfree = True, mnext = mnext (mem s b)\<rparr>"
    and m1b: "mem s1 b = \<lparr>msize = n, mfree = False, mnext = chunk\<rparr>"
    and m1o: "\<forall>a. a \<noteq> b \<and> a \<noteq> chunk \<longrightarrow> mem s1 a = mem s a"
    and l1: "lastp s1 = (if mnext (mem s b) = 0 then chunk else lastp s)"
    and f1: "freespace s1 = freespace s - (n + META cfg)"
    and fi1: "first s1 = first s"
    by blast
  have m1_pre: "\<And>a. a \<in> set pre \<Longrightarrow> mem s1 a = mem s a"
    using m1o b_pre c_pre by auto
  have m1_post: "\<And>a. a \<in> set post \<Longrightarrow> mem s1 a = mem s a"
    using m1o b_post c_post by auto
  have "path (mem s1) (heap_base cfg) pre b = path (mem s) (heap_base cfg) pre b"
    by (rule path_cong) (simp add: m1_pre)
  with pp have pp1: "path (mem s1) (heap_base cfg) pre b" by simp
  have "chain (mem s1) (mnext (mem s b)) post = chain (mem s) (mnext (mem s b)) post"
    by (rule chain_cong) (simp add: m1_post)
  with cpost have cpost1: "chain (mem s1) (mnext (mem s b)) post" by simp
  have ch1: "chain (mem s1) (heap_base cfg) (pre @ b # chunk # post)"
    using pp1 cpost1 bnz cnz m1b m1c by (auto simp: chain_append)
  have nx: "mnext (mem s b) = (if post = [] then 0 else hd post)"
    using cb by (rule chain_next)
  have post_nz: "post \<noteq> [] \<Longrightarrow> hd post \<noteq> 0"
    using chain_nonzero [OF cpost] by (cases post) auto
  have t1: "lastp s1 = last (pre @ b # chunk # post)"
    using l1 nx post_nz tl by (cases "post = []") simp_all
  have sh1: "shaped cfg s1 (pre @ b # chunk # post)"
    using ch1 t1 fi1 nf by (simp add: shaped_def)
  have lo1: "laid_out cfg (mem s1) (pre @ b # chunk # post)"
    using lo sa room chunk_def _ _ _ b_pre b_post
    by (rule split_laid_out) (use m1b m1c m1o in auto)
  have "allocated_total (mem s1) pre = allocated_total (mem s) pre"
    by (rule allocated_total_cong) (simp add: m1_pre)
  moreover have "allocated_total (mem s1) post = allocated_total (mem s) post"
    by (rule allocated_total_cong) (simp add: m1_post)
  ultimately have d1: "conservation_total cfg s1 (pre @ b # chunk # post)
      = conservation_total cfg s (pre @ b # post)"
    using bfree by (simp add: conservation_total_def free_space_in_my_heap_def f1 m1b m1c)
  have keep: "\<forall>a\<in>set (pre @ b # post). \<not> mfree (mem s a) \<longrightarrow>
      a \<in> set (pre @ b # chunk # post) \<and> \<not> mfree (mem s1 a)"
    using m1_pre m1_post bfree by auto
  from run1 sh1 lo1 d1 keep show ?thesis unfolding formed_def by blast
qed

lemma my_malloc_exact_formed:
  assumes fo: "formed cfg s (pre @ b # post)" and n: "n \<noteq> 0"
    and fit: "fits (mem s) n b" "\<forall>a\<in>set pre. \<not> fits (mem s) n a"
    and thr: "\<not> n + THRESHOLD cfg \<le> msize (mem s b)"
    and exact: "msize (mem s b) = n"
  shows "\<exists>s'. my_malloc cfg s n = ok (b + META cfg, s') \<and>
     formed cfg s' (pre @ b # post) \<and>
     conservation_total cfg s' (pre @ b # post) = conservation_total cfg s (pre @ b # post) \<and>
     (\<forall>a\<in>set (pre @ b # post). \<not> mfree (mem s a) \<longrightarrow> \<not> mfree (mem s' a))"
proof -
  from fo have sh: "shaped cfg s (pre @ b # post)" and lo: "laid_out cfg (mem s) (pre @ b # post)"
    by (simp_all add: formed_def)
  from sh have nf: "\<not> first s" and ch: "chain (mem s) (heap_base cfg) (pre @ b # post)"
    and tl: "lastp s = last (pre @ b # post)" by (simp_all add: shaped_def)
  from ch have bnz: "b \<noteq> 0" by (auto simp: chain_append)
  from ch have "distinct (pre @ b # post)" by (rule chain_distinct)
  then have b_pre: "b \<notin> set pre" and b_post: "b \<notin> set post" by auto
  from fit(1) have bfree: "mfree (mem s b)" by (simp add: fits_def)
  have sf: "search_freespace cfg s n = Some b"
    by (rule search_freespace_first_fit [OF ch fit])
  define s1 where "s1 = set_free (s\<lparr>freespace := freespace s - n\<rparr>) b False"
  have run1: "my_malloc cfg s n = ok (b + META cfg, s1)"
    unfolding s1_def by (rule my_malloc_unsplit_path [OF sf bnz nf n thr])
  have m1: "mem s1 = (mem s)(b := (mem s b)\<lparr>mfree := False\<rparr>)"
    and f1: "freespace s1 = freespace s - n" and l1: "lastp s1 = lastp s"
    and fi1: "first s1 = first s"
    by (simp_all add: s1_def set_free_def)
  have "chain (mem s1) (heap_base cfg) (pre @ b # post) = chain (mem s) (heap_base cfg) (pre @ b # post)"
    by (rule chain_cong) (simp add: m1)
  with ch tl l1 fi1 nf have sh1: "shaped cfg s1 (pre @ b # post)" by (simp add: shaped_def)
  have "laid_out cfg (mem s1) (pre @ b # post) = laid_out cfg (mem s) (pre @ b # post)"
    by (rule laid_out_cong) (simp add: m1)
  with lo have lo1: "laid_out cfg (mem s1) (pre @ b # post)" by simp
  have "allocated_total (mem s1) pre = allocated_total (mem s) pre"
    by (rule allocated_total_cong) (use b_pre in \<open>auto simp: m1\<close>)
  moreover have "allocated_total (mem s1) post = allocated_total (mem s) post"
    by (rule allocated_total_cong) (use b_post in \<open>auto simp: m1\<close>)
  ultimately have "conservation_total cfg s1 (pre @ b # post) = conservation_total cfg s (pre @ b # post)"
    using bfree exact by (simp add: conservation_total_def free_space_in_my_heap_def f1 m1)
  moreover have "\<forall>a\<in>set (pre @ b # post). \<not> mfree (mem s a) \<longrightarrow> \<not> mfree (mem s1 a)"
    by (simp add: m1)
  ultimately show ?thesis using run1 sh1 lo1 unfolding formed_def by blast
qed

lemma my_malloc_formed:
  assumes fo: "formed cfg s as" and sa: "sane cfg" and pl: "placed cfg s as n" and n: "n \<noteq> 0"
  shows "\<exists>p s' as'. my_malloc cfg s n = ok (p, s') \<and> formed cfg s' as' \<and>
     conservation_total cfg s' as' = conservation_total cfg s as \<and>
     (\<forall>a\<in>set as. \<not> mfree (mem s a) \<longrightarrow> a \<in> set as' \<and> \<not> mfree (mem s' a))"
proof (cases "List.find (fits (mem s) n) as")
  case None
  from fo have nf: "\<not> first s" by (simp add: formed_def shaped_def)
  from None have nofit: "\<forall>a\<in>set as. \<not> fits (mem s) n a" by (simp add: find_None_iff)
  from pl None n nf
  have "block_end cfg (mem s) (lastp s) + unat (META cfg) + unat n \<le> arena_end cfg"
    by (simp add: placed_def)
  from my_malloc_tail_formed [OF fo sa n nofit this] show ?thesis .
next
  case (Some b)
  from fo have nf: "\<not> first s" by (simp add: formed_def shaped_def)
  from find_decompose [OF Some] obtain pre post where as: "as = pre @ b # post"
    and fit: "fits (mem s) n b" "\<forall>a\<in>set pre. \<not> fits (mem s) n a" by blast
  show ?thesis
  proof (cases "n + THRESHOLD cfg \<le> msize (mem s b)")
    case True
    with pl Some n nf have "unat n + unat (META cfg) \<le> unat (msize (mem s b))"
      by (simp add: placed_def)
    from my_malloc_split_formed [OF fo [unfolded as] sa n fit True this] as
    show ?thesis by blast
  next
    case False
    with pl Some n nf have "msize (mem s b) = n" by (simp add: placed_def)
    from my_malloc_exact_formed [OF fo [unfolded as] n fit False this] as
    show ?thesis by blast
  qed
qed

lemma split_credit_formed:
  assumes fo: "formed cfg s (pre @ b # post)" and sa: "sane cfg"
    and alloc: "\<not> mfree (mem s b)"
    and room: "unat n + unat (META cfg) \<le> unat (msize (mem s b))"
  shows "\<exists>s1 s2 as'. split cfg s b n = ok s1 \<and> mnext (mem s1 b) \<noteq> 0 \<and>
     s2 = s1\<lparr>freespace := freespace s1 + msize (mem s1 (mnext (mem s1 b)))\<rparr> \<and>
     formed cfg s2 as' \<and>
     conservation_total cfg s2 as' = conservation_total cfg s (pre @ b # post)"
proof -
  define chunk where "chunk = b + (META cfg + n)"
  from fo have sh: "shaped cfg s (pre @ b # post)" and lo: "laid_out cfg (mem s) (pre @ b # post)"
    by (simp_all add: formed_def)
  from sh have nf: "\<not> first s" and ch: "chain (mem s) (heap_base cfg) (pre @ b # post)"
    and tl: "lastp s = last (pre @ b # post)" by (simp_all add: shaped_def)
  from carve_inside [OF lo sa room chunk_def] have cnz: "chunk \<noteq> 0"
    and fresh: "chunk \<notin> set (pre @ b # post)" by auto
  from ch have pp: "path (mem s) (heap_base cfg) pre b" and cb: "chain (mem s) b (b # post)"
    by (auto simp: chain_append)
  from cb have bnz: "b \<noteq> 0" and cpost: "chain (mem s) (mnext (mem s b)) post" by auto
  from fresh have cneb: "chunk \<noteq> b" and c_pre: "chunk \<notin> set pre" and c_post: "chunk \<notin> set post"
    by auto
  from ch have "distinct (pre @ b # post)" by (rule chain_distinct)
  then have b_pre: "b \<notin> set pre" and b_post: "b \<notin> set post" by auto
  define s5 where "s5 =
     set_size (set_size (set_free (set_next (set_next s chunk (mnext (mem s b))) b chunk) chunk True)
        chunk (msize (mem s b) - (n + META cfg))) b n"
  define s1 where "s1 = (if mnext (mem s b) = 0 then s5\<lparr>lastp := chunk\<rparr> else s5)"
  define s2 where "s2 = s1\<lparr>freespace := freespace s1 + msize (mem s1 (mnext (mem s1 b)))\<rparr>"
  have sp: "split cfg s b n = ok s1"
    using bnz cnz cneb
    by (simp add: split_def Let_def deref_def chunk_def [symmetric] set_next_def set_free_def
        set_size_def s1_def s5_def)
  have nx1: "mnext (mem s1 b) = chunk"
    using cneb by (simp add: s1_def s5_def set_next_def set_free_def set_size_def)
  have m2c: "mem s2 chunk = \<lparr>msize = msize (mem s b) - (n + META cfg), mfree = True, mnext = mnext (mem s b)\<rparr>"
    and m2b: "mem s2 b = \<lparr>msize = n, mfree = False, mnext = chunk\<rparr>"
    and m2o: "\<forall>a. a \<noteq> b \<and> a \<noteq> chunk \<longrightarrow> mem s2 a = mem s a"
    and l2: "lastp s2 = (if mnext (mem s b) = 0 then chunk else lastp s)"
    and f2: "freespace s2 = freespace s + (msize (mem s b) - (n + META cfg))"
    and fi2: "first s2 = first s"
    using cneb alloc
    by (simp_all add: s2_def s1_def s5_def set_next_def set_free_def set_size_def)
  have m2_pre: "\<And>a. a \<in> set pre \<Longrightarrow> mem s2 a = mem s a"
    using m2o b_pre c_pre by auto
  have m2_post: "\<And>a. a \<in> set post \<Longrightarrow> mem s2 a = mem s a"
    using m2o b_post c_post by auto
  have "path (mem s2) (heap_base cfg) pre b = path (mem s) (heap_base cfg) pre b"
    by (rule path_cong) (simp add: m2_pre)
  with pp have pp2: "path (mem s2) (heap_base cfg) pre b" by simp
  have "chain (mem s2) (mnext (mem s b)) post = chain (mem s) (mnext (mem s b)) post"
    by (rule chain_cong) (simp add: m2_post)
  with cpost have cpost2: "chain (mem s2) (mnext (mem s b)) post" by simp
  have ch2: "chain (mem s2) (heap_base cfg) (pre @ b # chunk # post)"
    using pp2 cpost2 bnz cnz m2b m2c by (auto simp: chain_append)
  have nx: "mnext (mem s b) = (if post = [] then 0 else hd post)"
    using cb by (rule chain_next)
  have post_nz: "post \<noteq> [] \<Longrightarrow> hd post \<noteq> 0"
    using chain_nonzero [OF cpost] by (cases post) auto
  have t2: "lastp s2 = last (pre @ b # chunk # post)"
    using l2 nx post_nz tl by (cases "post = []") simp_all
  have sh2: "shaped cfg s2 (pre @ b # chunk # post)"
    using ch2 t2 fi2 nf by (simp add: shaped_def)
  have lo2: "laid_out cfg (mem s2) (pre @ b # chunk # post)"
    using lo sa room chunk_def _ _ _ b_pre b_post
    by (rule split_laid_out) (use m2b m2c m2o in auto)
  have "allocated_total (mem s2) pre = allocated_total (mem s) pre"
    by (rule allocated_total_cong) (simp add: m2_pre)
  moreover have "allocated_total (mem s2) post = allocated_total (mem s) post"
    by (rule allocated_total_cong) (simp add: m2_post)
  ultimately have d2: "conservation_total cfg s2 (pre @ b # chunk # post)
      = conservation_total cfg s (pre @ b # post)"
    using alloc by (simp add: conservation_total_def free_space_in_my_heap_def f2 m2b m2c)
  from sp nx1 cnz s2_def sh2 lo2 d2 show ?thesis unfolding formed_def by metis
qed

lemma grow_absorb:
  assumes fo: "formed cfg s (pre @ b # nx # post)" and sa: "sane cfg"
    and alloc: "\<not> mfree (mem s b)" and nfree: "mfree (mem s nx)"
    and m4: "mem s4 = (mem s)(b := (mem s b)\<lparr>msize := msize (mem s b) + (META cfg + msize (mem s nx)),
                                            mnext := mnext (mem s nx)\<rparr>)"
    and f4: "freespace s4 = freespace s - msize (mem s nx)"
    and l4: "lastp s4 = (if mnext (mem s nx) = 0 then b else lastp s)"
    and fi4: "first s4 = first s"
  shows "formed cfg s4 (pre @ b # post) \<and>
     conservation_total cfg s4 (pre @ b # post) = conservation_total cfg s (pre @ b # nx # post)"
proof -
  from sa have ae: "arena_end cfg < 2 ^ 64" by (simp add: sane_def)
  from fo have sh: "shaped cfg s (pre @ b # nx # post)"
    and lo: "laid_out cfg (mem s) (pre @ b # nx # post)"
    by (simp_all add: formed_def)
  from sh have nf: "\<not> first s" and ch: "chain (mem s) (heap_base cfg) (pre @ b # nx # post)"
    and tl: "lastp s = last (pre @ b # nx # post)" by (simp_all add: shaped_def)
  from ch have "distinct (pre @ b # nx # post)" by (rule chain_distinct)
  then have b_pre: "b \<notin> set pre" and b_post: "b \<notin> set post" and bnx: "b \<noteq> nx" by auto
  from ch have pp: "path (mem s) (heap_base cfg) pre b" and cb: "chain (mem s) b (b # nx # post)"
    by (auto simp: chain_append)
  from cb have bnz: "b \<noteq> 0" and cn: "chain (mem s) nx (nx # post)" by auto
  from cn have cpost: "chain (mem s) (mnext (mem s nx)) post" by auto
  have m4_pre: "\<And>a. a \<in> set pre \<Longrightarrow> mem s4 a = mem s a" using b_pre by (auto simp: m4)
  have m4_post: "\<And>a. a \<in> set post \<Longrightarrow> mem s4 a = mem s a" using b_post by (auto simp: m4)
  have "path (mem s4) (heap_base cfg) pre b = path (mem s) (heap_base cfg) pre b"
    by (rule path_cong) (simp add: m4_pre)
  with pp have pp4: "path (mem s4) (heap_base cfg) pre b" by simp
  have "chain (mem s4) (mnext (mem s nx)) post = chain (mem s) (mnext (mem s nx)) post"
    by (rule chain_cong) (simp add: m4_post)
  with cpost have cpost4: "chain (mem s4) (mnext (mem s nx)) post" by simp
  have ch4: "chain (mem s4) (heap_base cfg) (pre @ b # post)"
    using pp4 cpost4 bnz by (auto simp: chain_append m4)
  have nxn: "mnext (mem s nx) = (if post = [] then 0 else hd post)"
    using cn by (rule chain_next)
  have post_nz: "post \<noteq> [] \<Longrightarrow> hd post \<noteq> 0"
    using chain_nonzero [OF cpost] by (cases post) auto
  have t4: "lastp s4 = last (pre @ b # post)"
    using l4 nxn post_nz tl by (cases "post = []") simp_all
  have sh4: "shaped cfg s4 (pre @ b # post)"
    using ch4 t4 fi4 nf by (simp add: shaped_def)
  have lo4: "laid_out cfg (mem s4) (pre @ b # post)"
  proof (rule absorb_laid_out [where tw = "[nx]" and m = "mem s"])
    show "laid_out cfg (mem s) (pre @ b # [nx] @ post)" using lo by simp
    show "arena_end cfg < 2 ^ 64" by (rule ae)
  qed (use b_pre b_post bnx in \<open>auto simp: m4 add_ac\<close>)
  have "allocated_total (mem s4) pre = allocated_total (mem s) pre"
    by (rule allocated_total_cong) (simp add: m4_pre)
  moreover have "allocated_total (mem s4) post = allocated_total (mem s) post"
    by (rule allocated_total_cong) (simp add: m4_post)
  ultimately have "conservation_total cfg s4 (pre @ b # post)
      = conservation_total cfg s (pre @ b # nx # post)"
    using alloc nfree by (simp add: conservation_total_def free_space_in_my_heap_def f4 m4)
  with sh4 lo4 show ?thesis by (simp add: formed_def)
qed

lemma my_realloc_formed:
  assumes fo: "formed cfg s as" and sa: "sane cfg" and pz: "ptr \<noteq> 0" and n: "n \<noteq> 0"
    and rs: "resizable cfg s as ptr n"
  shows "\<exists>r s' as'. my_realloc cfg s ptr n = ok (r, s') \<and> formed cfg s' as' \<and>
     conservation_total cfg s' as' = conservation_total cfg s as"
proof -
  define b where "b = ptr - META cfg"
  define nx where "nx = mnext (mem s b)"
  define grown where "grown = msize (mem s b) + (META cfg + msize (mem s nx))"
  from sa have ae: "arena_end cfg < 2 ^ 64" by (simp add: sane_def)
  from rs pz n have bin: "b \<in> set as" and alloc: "\<not> mfree (mem s b)"
    by (simp_all add: resizable_def Let_def b_def)
  from fo have ch: "chain (mem s) (heap_base cfg) as" and lo: "laid_out cfg (mem s) as"
    by (simp_all add: formed_def shaped_def)
  from ch bin have bnz: "b \<noteq> 0" using chain_nonzero by blast
  from bin obtain pre post where as: "as = pre @ b # post" by (auto dest: split_list)
  from ch have cb: "chain (mem s) b (b # post)" by (auto simp: as chain_append)
  have ptr: "b + META cfg = ptr" by (simp add: b_def)
  consider (grow) "msize (mem s b) < n" | (shrink) "n < msize (mem s b)" | (same) "msize (mem s b) = n"
    by (metis linorder_neqE_linordered_idom not_less_iff_gr_or_eq word_less_def)
  then show ?thesis
  proof cases
    case same
    then have "my_realloc cfg s ptr n = ok (NoValue, s)"
      using pz n bnz by (simp add: my_realloc_def Let_def deref_def b_def [symmetric])
    with fo show ?thesis by blast
  next
    case shrink
    then have ng: "\<not> msize (mem s b) < n" by simp
    from rs pz n shrink ng have thr: "n + THRESHOLD cfg \<le> msize (mem s b)"
      and room: "unat n + unat (META cfg) \<le> unat (msize (mem s b))"
      by (simp_all add: resizable_def Let_def b_def [symmetric])
    from split_credit_formed [OF fo [unfolded as] sa alloc room] obtain s1 s2 as' where
      sp: "split cfg s b n = ok s1" and nz: "mnext (mem s1 b) \<noteq> 0"
      and s2: "s2 = s1\<lparr>freespace := freespace s1 + msize (mem s1 (mnext (mem s1 b)))\<rparr>"
      and fo2: "formed cfg s2 as'"
      and c2: "conservation_total cfg s2 as' = conservation_total cfg s as"
      unfolding as by blast
    have "my_realloc cfg s ptr n = ok (Ret (b + META cfg), s2)"
      using pz n bnz shrink ng thr sp nz
      by (simp add: my_realloc_def Let_def deref_def b_def [symmetric] s2)
    with fo2 c2 show ?thesis by blast
  next
    case grow
    from rs pz n grow have nxnz: "nx \<noteq> 0"
      by (simp add: resizable_def Let_def b_def [symmetric] nx_def)
    show ?thesis
    proof (cases "mfree (mem s nx) \<and> n - msize (mem s b) - META cfg \<le> msize (mem s nx)")
      case False
      from rs pz n grow False have pl: "placed cfg s as n"
        by (simp add: resizable_def Let_def b_def [symmetric] nx_def [symmetric] split: if_splits)
      from my_malloc_formed [OF fo sa pl n] bin alloc obtain p s1 as1 where
        ma: "my_malloc cfg s n = ok (p, s1)" and fo1: "formed cfg s1 as1"
        and c1: "conservation_total cfg s1 as1 = conservation_total cfg s as"
        and b1: "b \<in> set as1" "\<not> mfree (mem s1 b)" by blast
      have rel: "releasable cfg s1 as1 ptr" using b1 by (simp add: releasable_def b_def)
      from my_free_formed [OF fo1 ae pz rel] obtain r s2 as2 where
        fr: "my_free cfg s1 ptr = ok (r, s2)" and fo2: "formed cfg s2 as2"
        and c2: "conservation_total cfg s2 as2 = conservation_total cfg s1 as1" by blast
      have "realloc_fallback cfg s b n = ok (Ret p, s2)"
        using ma fr by (simp add: realloc_fallback_def ptr)
      then have "my_realloc cfg s ptr n = ok (Ret p, s2)"
        using pz n bnz grow nxnz False
        by (cases "mfree (mem s nx)")
          (simp_all add: my_realloc_def Let_def deref_def b_def [symmetric] nx_def [symmetric])
      with fo2 c1 c2 show ?thesis by (metis)
    next
      case True
      then have nfree: "mfree (mem s nx)" by simp
      from cb nxnz obtain post' where post: "post = nx # post'"
        by (cases post) (auto simp: nx_def)
      from ch have "distinct as" by (rule chain_distinct)
      then have bnx: "b \<noteq> nx" by (auto simp: as post)
      define s4 where "s4 = set_next
         (if mnext (mem s nx) = 0
          then (set_size s b grown)\<lparr>freespace := freespace s - msize (mem s nx), lastp := b\<rparr>
          else (set_size s b grown)\<lparr>freespace := freespace s - msize (mem s nx)\<rparr>)
         b (mnext (mem s nx))"
      have m4: "mem s4 = (mem s)(b := (mem s b)\<lparr>msize := msize (mem s b) + (META cfg + msize (mem s nx)),
                                            mnext := mnext (mem s nx)\<rparr>)"
        and f4: "freespace s4 = freespace s - msize (mem s nx)"
        and l4: "lastp s4 = (if mnext (mem s nx) = 0 then b else lastp s)"
        and fi4: "first s4 = first s"
        by (simp_all add: s4_def set_next_def set_size_def grown_def fun_eq_iff)
      from grow_absorb [OF fo [unfolded as post] sa alloc nfree m4 f4 l4 fi4]
      have fo4: "formed cfg s4 (pre @ b # post')"
        and c4: "conservation_total cfg s4 (pre @ b # post') = conservation_total cfg s as"
        by (simp_all add: as post)
      have sz4: "msize (mem s4 b) = grown" and al4: "\<not> mfree (mem s4 b)"
        using alloc by (simp_all add: m4 grown_def)
      have step: "my_realloc cfg s ptr n =
         (if n + THRESHOLD cfg \<le> grown then
            bindR (split cfg s4 b n) (\<lambda>s5.
              deref (mnext (mem s5 b))
                (ok (Ret (b + META cfg),
                     s5\<lparr>freespace := freespace s5 + msize (mem s5 (mnext (mem s5 b)))\<rparr>)))
          else ok (Ret (b + META cfg), s4))"
        using pz n bnz grow nxnz True bnx
        by (simp add: my_realloc_def Let_def deref_def b_def [symmetric] nx_def [symmetric]
            s4_def set_size_def set_next_def grown_def)
      show ?thesis
      proof (cases "n + THRESHOLD cfg \<le> grown")
        case False
        with step fo4 c4 show ?thesis by auto
      next
        case thr: True
        from rs pz n grow True thr have "unat n + unat (META cfg) \<le> unat grown"
          by (simp add: resizable_def Let_def b_def [symmetric] nx_def [symmetric] grown_def)
        then have room: "unat n + unat (META cfg) \<le> unat (msize (mem s4 b))" by (simp add: sz4)
        from split_credit_formed [OF fo4 sa al4 room] obtain s5 s6 as' where
          sp: "split cfg s4 b n = ok s5" and nz: "mnext (mem s5 b) \<noteq> 0"
          and s6: "s6 = s5\<lparr>freespace := freespace s5 + msize (mem s5 (mnext (mem s5 b)))\<rparr>"
          and fo6: "formed cfg s6 as'"
          and c6: "conservation_total cfg s6 as' = conservation_total cfg s4 (pre @ b # post')"
          by blast
        have "my_realloc cfg s ptr n = ok (Ret (b + META cfg), s6)"
          using step thr sp nz by (simp add: deref_def s6)
        with fo6 c6 c4 show ?thesis by (metis)
      qed
    qed
  qed
qed

lemma tracked_init: "tracked cfg (init cfg) []"
  by (simp add: tracked_def counter_tracks_def unclaimed_def init_def free_space_in_my_heap_def
      free_total_def header_total_def allocated_total_def)

lemma tracked_conservation:
  "tracked cfg s as \<Longrightarrow> \<not> first s \<Longrightarrow> formed cfg s as \<and> conservation_total cfg s as = BUFF_SIZE cfg"
  by (simp add: tracked_def formed_def shaped_def counter_tracks_conservation)

lemma my_malloc_tracked:
  assumes tr: "tracked cfg s as" and sa: "sane cfg" and pl: "placed cfg s as n"
  shows "\<exists>p s' as'. my_malloc cfg s n = ok (p, s') \<and> tracked cfg s' as'"
proof (cases "n = 0")
  case True
  then have "my_malloc cfg s n = ok (0, s)" by (simp add: my_malloc_def)
  with tr show ?thesis by blast
next
  case n: False
  show ?thesis
  proof (cases "first s")
    case True
    with tr have s: "s = init cfg" by (simp add: tracked_def)
    from pl n True have cap: "unat (META cfg) + unat n \<le> unat (BUFF_SIZE cfg)"
      by (simp add: placed_def)
    from my_malloc_first_call [OF sa n cap] s tracked_formed show ?thesis by blast
  next
    case False
    from tracked_conservation [OF tr False] have fo: "formed cfg s as"
      and c: "conservation_total cfg s as = BUFF_SIZE cfg" by simp_all
    from my_malloc_formed [OF fo sa pl n] c tracked_formed show ?thesis by metis
  qed
qed

lemma my_free_tracked:
  assumes tr: "tracked cfg s as" and sa: "sane cfg" and rel: "releasable cfg s as ptr"
  shows "\<exists>r s' as'. my_free cfg s ptr = ok (r, s') \<and> tracked cfg s' as'"
proof (cases "ptr = 0")
  case True
  then have "my_free cfg s ptr = ok (NoReport, s)" by (simp add: my_free_def)
  with tr show ?thesis by blast
next
  case pz: False
  from sa have ae: "arena_end cfg < 2 ^ 64" and hb: "heap_base cfg \<noteq> 0" by (simp_all add: sane_def)
  show ?thesis
  proof (cases "first s")
    case True
    with tr have s: "s = init cfg" and as: "as = []" by (simp_all add: tracked_def)
    from my_free_init [OF hb pz] tr show ?thesis unfolding s as by blast
  next
    case False
    from tracked_conservation [OF tr False] have fo: "formed cfg s as"
      and c: "conservation_total cfg s as = BUFF_SIZE cfg" by simp_all
    from my_free_formed [OF fo ae pz rel] c tracked_formed show ?thesis by metis
  qed
qed

lemma my_realloc_tracked:
  assumes tr: "tracked cfg s as" and sa: "sane cfg" and rs: "resizable cfg s as ptr n"
  shows "\<exists>r s' as'. my_realloc cfg s ptr n = ok (r, s') \<and> tracked cfg s' as'"
proof (cases "ptr = 0")
  case True
  with rs have "placed cfg s as n" by (simp add: resizable_def)
  from my_malloc_tracked [OF tr sa this] obtain p s' as' where
    "my_malloc cfg s n = ok (p, s')" "tracked cfg s' as'" by blast
  with True have "my_realloc cfg s ptr n = ok (Ret p, s') \<and> tracked cfg s' as'"
    by (simp add: my_realloc_def)
  then show ?thesis by blast
next
  case pz: False
  show ?thesis
  proof (cases "n = 0")
    case True
    with rs pz have "releasable cfg s as ptr" by (simp add: resizable_def)
    from my_free_tracked [OF tr sa this] obtain r s' as' where
      "my_free cfg s ptr = ok (r, s')" "tracked cfg s' as'" by blast
    with True pz have "my_realloc cfg s ptr n = ok (Ret 0, s') \<and> tracked cfg s' as'"
      by (simp add: my_realloc_def)
    then show ?thesis by blast
  next
    case n: False
    from rs pz n have "ptr - META cfg \<in> set as" by (simp add: resizable_def Let_def)
    with tr have nf: "\<not> first s" by (auto simp: tracked_def)
    from tracked_conservation [OF tr nf] have fo: "formed cfg s as"
      and c: "conservation_total cfg s as = BUFF_SIZE cfg" by simp_all
    from my_realloc_formed [OF fo sa pz n rs] c tracked_formed show ?thesis by metis
  qed
qed

lemma unat_blocks:
  "sum_list (map (\<lambda>a. unat (META cfg) + unat (msize (m a))) as) < 2 ^ 64 \<Longrightarrow>
   unat (sum_list (map (\<lambda>a. META cfg + msize (m a)) as))
     = sum_list (map (\<lambda>a. unat (META cfg) + unat (msize (m a))) as)"
proof (induction as)
  case Nil
  then show ?case by simp
next
  case (Cons a as)
  then have ih: "unat (sum_list (map (\<lambda>a. META cfg + msize (m a)) as))
     = sum_list (map (\<lambda>a. unat (META cfg) + unat (msize (m a))) as)" by simp
  have h: "unat (META cfg + msize (m a)) = unat (META cfg) + unat (msize (m a))"
    using Cons.prems by (intro unat_plus) simp
  show ?case using Cons.prems ih h by (simp add: unat_plus)
qed

lemma unat_free_total:
  "sum_list (map (\<lambda>a. unat (META cfg) + unat (msize (m a))) as) < 2 ^ 64 \<Longrightarrow>
   unat (free_total m as) = sum_list (map (\<lambda>a. unat (msize (m a))) (filter (\<lambda>a. mfree (m a)) as))
   \<and> sum_list (map (\<lambda>a. unat (msize (m a))) (filter (\<lambda>a. mfree (m a)) as))
       \<le> sum_list (map (\<lambda>a. unat (META cfg) + unat (msize (m a))) as)"
proof (induction as)
  case Nil
  then show ?case by simp
next
  case (Cons a as)
  then have ih: "unat (free_total m as) = sum_list (map (\<lambda>a. unat (msize (m a))) (filter (\<lambda>a. mfree (m a)) as))"
    and le: "sum_list (map (\<lambda>a. unat (msize (m a))) (filter (\<lambda>a. mfree (m a)) as))
       \<le> sum_list (map (\<lambda>a. unat (META cfg) + unat (msize (m a))) as)" by simp_all
  show ?case using Cons.prems ih le by (simp add: unat_plus)
qed

lemma counter_in_naturals:
  assumes tr: "tracked cfg s as" and sa: "sane cfg"
  shows "sum_list (map (\<lambda>a. unat (META cfg) + unat (msize (mem s a))) as) \<le> unat (BUFF_SIZE cfg) \<and>
     unat (free_space_in_my_heap s)
       = sum_list (map (\<lambda>a. unat (msize (mem s a))) (filter (\<lambda>a. mfree (mem s a)) as))
         + (unat (BUFF_SIZE cfg) - sum_list (map (\<lambda>a. unat (META cfg) + unat (msize (mem s a))) as))"
proof (cases "first s")
  case True
  with tr have "s = init cfg" "as = []" by (simp_all add: tracked_def)
  then show ?thesis by (simp add: init_def free_space_in_my_heap_def)
next
  case False
  define W where "W = sum_list (map (\<lambda>a. unat (META cfg) + unat (msize (mem s a))) as)"
  define F where "F = sum_list (map (\<lambda>a. unat (msize (mem s a))) (filter (\<lambda>a. mfree (mem s a)) as))"
  from tr False have lo: "laid_out cfg (mem s) as" and ct: "counter_tracks cfg s as"
    by (simp_all add: tracked_def formed_def)
  from lo have t: "tiles cfg (mem s) (unat (heap_base cfg)) as"
    and se: "span_end cfg (mem s) (unat (heap_base cfg)) as \<le> arena_end cfg"
    by (simp_all add: laid_out_def)
  from span_end_sum [OF t] se have WB: "W \<le> unat (BUFF_SIZE cfg)"
    by (simp add: W_def arena_end_def)
  have B: "unat (BUFF_SIZE cfg) < 2 ^ 64" using unsigned_less [of "BUFF_SIZE cfg", where 'a = nat] by simp
  with WB have W64: "W < 2 ^ 64" by simp
  have uw: "unat (sum_list (map (\<lambda>a. META cfg + msize (mem s a)) as)) = W"
    unfolding W_def using W64 [unfolded W_def] by (rule unat_blocks)
  from unat_free_total [of cfg "mem s" as] W64
  have uf: "unat (free_total (mem s) as) = F" and FW: "F \<le> W" by (simp_all add: W_def F_def)
  have uu: "unat (unclaimed cfg (mem s) as) = unat (BUFF_SIZE cfg) - W"
    unfolding unclaimed_def using WB uw by (subst unat_minus) simp_all
  have "unat (free_total (mem s) as + unclaimed cfg (mem s) as) = F + (unat (BUFF_SIZE cfg) - W)"
    using uf uu FW WB B by (subst unat_plus) simp_all
  with ct WB show ?thesis by (simp add: counter_tracks_def W_def F_def)
qed

text \<open>
  Claim C4, amended. The counter equals the sum of the payload sizes of the free blocks plus
  the bytes of the array that no block has claimed yet. This holds in the initial state, where
  there is no block and the counter is the capacity. Together with the layout of the blocks
  (a chain from the base that tiles the array, with the tail pointer on its last block) it is
  kept by every call of \<^verbatim>\<open>my_malloc\<close> whose request fits (\<open>placed\<close>: a new block lies
  inside the array, a block that is split has room for the request and one more header, a
  block handed out whole has exactly the requested size), by every call of \<^verbatim>\<open>my_free\<close>
  whose pointer is not the payload of an already free block (\<open>releasable\<close>), and by every
  call of \<^verbatim>\<open>my_realloc\<close> that meets \<open>resizable\<close>: a null pointer or a size 0 under the
  condition of the allocation or release it stands for, and otherwise the payload of an
  allocated block of the chain that keeps its size, or shrinks by a split with room, or
  grows, not being the tail, in place (any split with room) or by an allocation that fits
  followed by the release of the old block. In every such state the blocks take no more
  than the capacity and the relation holds in the natural numbers, without wrap-around.
\<close>

theorem counter_tracks_free_and_unclaimed:
  "tracked cfg (init cfg) [] \<and>
   (\<forall>s as. tracked cfg s as \<and> sane cfg \<longrightarrow>
      sum_list (map (\<lambda>a. unat (META cfg) + unat (msize (mem s a))) as) \<le> unat (BUFF_SIZE cfg) \<and>
      unat (free_space_in_my_heap s)
        = sum_list (map (\<lambda>a. unat (msize (mem s a))) (filter (\<lambda>a. mfree (mem s a)) as))
          + (unat (BUFF_SIZE cfg) - sum_list (map (\<lambda>a. unat (META cfg) + unat (msize (mem s a))) as))) \<and>
   (\<forall>s as n. tracked cfg s as \<and> sane cfg \<and> placed cfg s as n \<longrightarrow>
      (\<exists>p s' as'. my_malloc cfg s n = ok (p, s') \<and> tracked cfg s' as')) \<and>
   (\<forall>s as ptr. tracked cfg s as \<and> sane cfg \<and> releasable cfg s as ptr \<longrightarrow>
      (\<exists>r s' as'. my_free cfg s ptr = ok (r, s') \<and> tracked cfg s' as')) \<and>
   (\<forall>s as ptr n. tracked cfg s as \<and> sane cfg \<and> resizable cfg s as ptr n \<longrightarrow>
      (\<exists>r s' as'. my_realloc cfg s ptr n = ok (r, s') \<and> tracked cfg s' as'))"
  using tracked_init counter_in_naturals my_malloc_tracked my_free_tracked my_realloc_tracked
  by blast

theorem counter_tracks_free_and_unclaimed_witness:
  "tracked cfg_ex (init cfg_ex) [] \<and> sane cfg_ex \<and>
   tracked cfg_ex st_one_free [4096, 4220, 4294] \<and>
   unat (free_space_in_my_heap st_one_free)
     = sum_list (map (\<lambda>a. unat (msize (mem st_one_free a)))
         (filter (\<lambda>a. mfree (mem st_one_free a)) [4096, 4220, 4294]))
       + (unat (BUFF_SIZE cfg_ex)
          - sum_list (map (\<lambda>a. unat (META cfg_ex) + unat (msize (mem st_one_free a))) [4096, 4220, 4294])) \<and>
   placed cfg_ex st_one_free [4096, 4220, 4294] 10 \<and>
   (\<exists>p s' as'. my_malloc cfg_ex st_one_free 10 = ok (p, s') \<and> tracked cfg_ex s' as') \<and>
   tracked cfg_ex st_adj [4096, 4140, 4220, 4294] \<and> releasable cfg_ex st_adj [4096, 4140, 4220, 4294] 4318 \<and>
   (\<exists>r s' as'. my_free cfg_ex st_adj 4318 = ok (r, s') \<and> tracked cfg_ex s' as') \<and>
   resizable cfg_ex st_one_free [4096, 4220, 4294] 4120 20 \<and>
   (\<exists>r s' as'. my_realloc cfg_ex st_one_free 4120 20 = ok (r, s') \<and> tracked cfg_ex s' as') \<and>
   resizable cfg_ex st_one_free [4096, 4220, 4294] 4120 130 \<and>
   (\<exists>r s' as'. my_realloc cfg_ex st_one_free 4120 130 = ok (r, s') \<and> tracked cfg_ex s' as')"
proof -
  have sa: "sane cfg_ex" by (simp add: sane_def arena_end_def cfg_ex_def)
  have t1: "tracked cfg_ex st_one_free [4096, 4220, 4294]"
    by (simp add: tracked_def formed_def shaped_def laid_out_def block_end_def arena_end_def
        counter_tracks_def unclaimed_def free_total_def
        free_space_in_my_heap_def st_one_free_def cfg_ex_def)
  have p1: "placed cfg_ex st_one_free [4096, 4220, 4294] 10"
    by (simp add: placed_def fits_def st_one_free_def cfg_ex_def)
  have t2: "tracked cfg_ex st_adj [4096, 4140, 4220, 4294]"
    by (simp add: tracked_def formed_def shaped_def laid_out_def block_end_def arena_end_def
        counter_tracks_def unclaimed_def free_total_def
        free_space_in_my_heap_def st_adj_def cfg_ex_def)
  have r2: "releasable cfg_ex st_adj [4096, 4140, 4220, 4294] 4318"
    by (simp add: releasable_def st_adj_def cfg_ex_def)
  have z1: "resizable cfg_ex st_one_free [4096, 4220, 4294] 4120 20"
    by (simp add: resizable_def st_one_free_def cfg_ex_def)
  have z2: "resizable cfg_ex st_one_free [4096, 4220, 4294] 4120 130"
    by (simp add: resizable_def st_one_free_def cfg_ex_def)
  from counter_tracks_free_and_unclaimed [of cfg_ex] sa t1 p1 t2 r2 z1 z2 show ?thesis by blast
qed

text \<open>
  Claim C4 as stated fails from the start: the counter of the fresh arena is the capacity,
  1000, while no block is free; after \<^verbatim>\<open>my_malloc(100)\<close> it is 876 and the only block is
  allocated.
\<close>

theorem counter_is_not_free_total_counterexample:
  "free_space_in_my_heap (init cfg_ex) = 1000 \<and>
   chain (mem (init cfg_ex)) (heap_base cfg_ex) [4096] \<and>
   free_total (mem (init cfg_ex)) [4096] = 0 \<and>
   bindR (my_malloc cfg_ex (init cfg_ex) 100) (\<lambda>(p, s).
     ok (free_space_in_my_heap s, chain (mem s) (heap_base cfg_ex) [4096], free_total (mem s) [4096]))
   = ok (876, True, 0)"
  by (simp add: run_simps free_total_def)

section \<open>The round trip\<close>

lemma round_trip_tail:
  assumes fo: "formed cfg s as" and sa: "sane cfg"
    and naf: "no_adjacent_free (mem s) as" and n: "n \<noteq> 0"
    and nofit: "\<forall>a\<in>set as. \<not> fits (mem s) n a"
    and cap: "block_end cfg (mem s) (lastp s) + unat (META cfg) + unat n \<le> arena_end cfg"
    and lfree: "mfree (mem s (lastp s))"
  shows "\<exists>p s1 r s2. my_malloc cfg s n = ok (p, s1) \<and> my_free cfg s1 p = ok (r, s2) \<and>
      free_space_in_my_heap s2 = free_space_in_my_heap s \<and>
      chain (mem s2) (heap_base cfg) as \<and> lastp s2 = lastp s \<and>
      mem s2 (lastp s) = (mem s (lastp s))\<lparr>msize := msize (mem s (lastp s)) + (n + META cfg)\<rparr> \<and>
      (\<forall>a\<in>set as. a \<noteq> lastp s \<longrightarrow> mem s2 a = mem s a)"
proof -
  define l where "l = lastp s"
  define block where "block = msize (mem s (lastp s)) + (lastp s + META cfg)"
  define bl where "bl = butlast as"
  from fo have sh: "shaped cfg s as" and lo: "laid_out cfg (mem s) as"
    by (simp_all add: formed_def)
  from sh have ne: "as \<noteq> []" and tl: "lastp s = last as"
    and ch: "chain (mem s) (heap_base cfg) as" by (simp_all add: shaped_def)
  from sa have ae: "arena_end cfg < 2 ^ 64" and mp: "0 < META cfg" by (simp_all add: sane_def)
  from ne tl have as: "as = bl @ [l]" by (simp add: l_def bl_def)
  from tail_block_fresh [OF fo sa cap block_def]
  have ub: "unat block = block_end cfg (mem s) l" and bnz: "block \<noteq> 0"
    and fresh: "block \<notin> set as" by (simp_all add: l_def)
  from as have lin: "l \<in> set as" by (metis in_set_conv_decomp)
  with fresh have lb: "l \<noteq> block" by auto
  from chain_nonzero [OF ch] lin have lnz: "l \<noteq> 0" by auto
  from ch have "chain (mem s) l [l]" unfolding as by (auto simp: chain_append)
  then have lnext: "mnext (mem s l) = 0" by simp
  from my_malloc_tail_path [OF sh n nofit block_def bnz fresh] obtain s1 where
    run1: "my_malloc cfg s n = ok (block + META cfg, s1)"
    and sh1: "shaped cfg s1 (as @ [block])"
    and m1b: "mem s1 block = \<lparr>msize = n, mfree = False, mnext = 0\<rparr>"
    and fields1: "\<forall>a\<in>set as. mfree (mem s1 a) = mfree (mem s a) \<and> msize (mem s1 a) = msize (mem s a)"
    and m1o: "\<forall>a. a \<noteq> l \<and> a \<noteq> block \<longrightarrow> mem s1 a = mem s a"
    and l1: "lastp s1 = block" and f1: "freespace s1 = freespace s - (n + META cfg)"
    unfolding l_def by blast
  from sh1 have ch1: "chain (mem s1) (heap_base cfg) (as @ block # [])" by (simp add: shaped_def)
  have "unat block + unat (META cfg) < 2 ^ 64" using ub cap ae by (simp add: l_def)
  then have "unat (block + META cfg) = unat block + unat (META cfg)" by (rule unat_plus)
  moreover from mp have "0 < unat (META cfg)" by (simp add: word_less_nat_alt)
  ultimately have "0 < unat (block + META cfg)" by simp
  then have pnz: "block + META cfg \<noteq> 0" by auto
  from lo have t: "tiles cfg (mem s) (unat (heap_base cfg)) as" by (simp add: laid_out_def)
  from tiles_member [OF t lin] have "unat (heap_base cfg) \<le> unat l" by simp
  moreover have "unat l < block_end cfg (mem s) l" using mp by (rule block_start_lt_end)
  ultimately have base_le: "heap_base cfg \<le> block" using ub by (simp add: word_le_nat_alt)
  define s2 where "s2 = (set_free s1 block True)\<lparr>freespace := freespace s1 + msize (mem s1 block)\<rparr>"
  define prev where "prev = (if as = [] then 0 else last as)"
  have prev: "prev = l" using ne tl by (simp add: prev_def l_def)
  have bb: "block = block + META cfg - META cfg" by simp
  have run2: "my_free cfg s1 (block + META cfg) =
      bindR (fuse cfg s2 block) (\<lambda>s3.
        bindR (if prev \<noteq> 0 \<and> mfree (mem s3 prev) then fuse cfg s3 prev else ok s3) (\<lambda>s4.
        bindR (deframent_my_heap cfg s4) (\<lambda>s5.
        ok (FreeFor (msize (mem s1 block)), s5))))"
    using base_le l1
    by (intro my_free_valid [OF ch1 pnz bb _ prev_def s2_def]) simp
  have m2: "mem s2 = (mem s1)(block := (mem s1 block)\<lparr>mfree := True\<rparr>)"
    and f2: "freespace s2 = freespace s - META cfg" and l2: "lastp s2 = block"
    by (simp_all add: s2_def set_free_def f1 m1b l1)
  have "chain (mem s2) (heap_base cfg) (as @ block # []) = chain (mem s1) (heap_base cfg) (as @ block # [])"
    by (rule chain_cong) (simp add: m2)
  with ch1 have ch2: "chain (mem s2) (heap_base cfg) (as @ block # [])" by simp
  from fuse_in_chain [OF ch2, of cfg] obtain s3 where
    run3: "fuse cfg s2 block = ok s3"
    and ch3: "chain (mem s3) (heap_base cfg) (as @ [block])"
    and m3o: "\<forall>a. a \<noteq> block \<longrightarrow> mem s3 a = mem s2 a"
    and fr3: "mfree (mem s3 block) = mfree (mem s2 block)"
    and sz3: "msize (mem s3 block) = msize (mem s2 block)"
    and f3: "freespace s3 = freespace s2"
    and l3: "lastp s3 = block"
    by auto
  have m3l: "mem s3 l = mem s1 l" using m3o lb by (simp add: m2)
  have lfree3: "mfree (mem s3 prev)" using m3l fields1 lin lfree by (simp add: prev l_def)
  have b3: "mfree (mem s3 block)" "msize (mem s3 block) = n"
    using fr3 sz3 by (simp_all add: m2 m1b)
  from ch3 have ch3': "chain (mem s3) (heap_base cfg) (bl @ l # [block])" by (simp add: as)
  have dw: "dropWhile (\<lambda>b. mfree (mem s3 b)) [block] = []"
    and tw: "takeWhile (\<lambda>b. mfree (mem s3 b)) [block] = [block]"
    using b3 by simp_all
  from fuse_in_chain [OF ch3', of cfg] obtain s4 where
    run4: "fuse cfg s3 l = ok s4"
    and ch4: "chain (mem s4) (heap_base cfg) (bl @ [l])"
    and m4o: "\<forall>a. a \<noteq> l \<longrightarrow> mem s4 a = mem s3 a"
    and fr4: "mfree (mem s4 l) = mfree (mem s3 l)"
    and sz4: "msize (mem s4 l) = msize (mem s3 l) + (msize (mem s3 block) + META cfg)"
    and f4: "freespace s4 = freespace s3 + META cfg"
    and l4: "lastp s4 = l"
    unfolding dw tw by auto
  from ch4 have ch4': "chain (mem s4) (heap_base cfg) as" by (simp add: as)
  from ch4 have "chain (mem s4) l [l]" by (auto simp: chain_append)
  then have next4: "mnext (mem s4 l) = 0" by simp
  have free4: "freespace s4 = freespace s" using f4 f3 f2 by simp
  have size4: "msize (mem s4 l) = msize (mem s l) + (n + META cfg)"
    using sz4 b3 m3l fields1 lin by simp
  have flag4: "mfree (mem s4 l) = mfree (mem s l)"
    using fr4 m3l fields1 lin by simp
  have m4l: "mem s4 l = (mem s l)\<lparr>msize := msize (mem s l) + (n + META cfg)\<rparr>"
    using size4 flag4 next4 lnext by (intro metadata.equality) simp_all
  have m4_other: "\<forall>a\<in>set as. a \<noteq> l \<longrightarrow> mem s4 a = mem s a"
  proof (intro ballI impI)
    fix a assume a: "a \<in> set as" "a \<noteq> l"
    with fresh have "a \<noteq> block" by auto
    with a m4o m3o m1o show "mem s4 a = mem s a" by (simp add: m2)
  qed
  have "no_adjacent_free (mem s4) as = no_adjacent_free (mem s) as"
  proof (rule no_adjacent_free_cong)
    fix a assume "a \<in> set as"
    then show "mfree (mem s4 a) = mfree (mem s a)"
      using m4_other flag4 by (cases "a = l") auto
  qed
  with naf have naf4: "no_adjacent_free (mem s4) as" by simp
  have run5: "deframent_my_heap cfg s4 = ok s4"
    unfolding deframent_my_heap_def using ch4' naf4 by (rule defrag_loop_id)
  have "my_free cfg s1 (block + META cfg) = ok (FreeFor (msize (mem s1 block)), s4)"
    using run2 run3 run4 lfree3 lnz run5 by (simp add: prev)
  with run1 free4 ch4' l4 m4l m4_other show ?thesis
    unfolding l_def free_space_in_my_heap_def by blast
qed

text \<open>
  Claim C5, amended. Take a state whose blocks are a chain from the base that tiles the
  array, with the tail pointer on its last block and no two free neighbours, and a size
  \<open>n\<close> that is not 0. Let the request be served by a free block of the chain, the first fit
  \<open>b\<close>, which is split and has room for the request and one more header, or is not split
  and has exactly \<open>n\<close> bytes; or let no block fit, the tail block be free and the new block
  placed behind it end inside the array. Then \<^verbatim>\<open>my_malloc(n)\<close> followed at once by
  \<^verbatim>\<open>my_free\<close> of the pointer it returned brings the counter back to its value before the
  allocation. The chain has the same blocks and the same tail as before, and every header is
  as before, except that in the second case the tail block has absorbed the new block: its
  size has grown by \<open>n\<close> and one header. In the first case the pointer is the payload of
  \<open>b\<close>.
\<close>

theorem malloc_free_round_trip:
  assumes fo: "formed cfg s as" and sa: "sane cfg"
    and naf: "no_adjacent_free (mem s) as"
    and n: "n \<noteq> 0"
    and served:
      "case List.find (fits (mem s) n) as of
         Some b \<Rightarrow>
           (n + THRESHOLD cfg \<le> msize (mem s b) \<and> unat n + unat (META cfg) \<le> unat (msize (mem s b)))
           \<or> (\<not> n + THRESHOLD cfg \<le> msize (mem s b) \<and> msize (mem s b) = n)
       | None \<Rightarrow>
           mfree (mem s (lastp s)) \<and>
           block_end cfg (mem s) (lastp s) + unat (META cfg) + unat n \<le> arena_end cfg"
  shows "\<exists>p s1 r s2. my_malloc cfg s n = ok (p, s1) \<and>
      my_free cfg s1 p = ok (r, s2) \<and>
      free_space_in_my_heap s2 = free_space_in_my_heap s \<and>
      chain (mem s2) (heap_base cfg) as \<and> lastp s2 = lastp s \<and>
      (\<forall>a\<in>set as. mem s2 a =
         (if a = lastp s \<and> List.find (fits (mem s) n) as = None
          then (mem s a)\<lparr>msize := msize (mem s a) + (n + META cfg)\<rparr> else mem s a)) \<and>
      (\<forall>b. List.find (fits (mem s) n) as = Some b \<longrightarrow> p = b + META cfg)"
proof (cases "List.find (fits (mem s) n) as")
  case None
  with served have lfree: "mfree (mem s (lastp s))"
    and cap: "block_end cfg (mem s) (lastp s) + unat (META cfg) + unat n \<le> arena_end cfg"
    by simp_all
  from None have nofit: "\<forall>a\<in>set as. \<not> fits (mem s) n a" by (simp add: find_None_iff)
  from round_trip_tail [OF fo sa naf n nofit cap lfree] obtain p s1 r s2 where
    "my_malloc cfg s n = ok (p, s1)" "my_free cfg s1 p = ok (r, s2)"
    "free_space_in_my_heap s2 = free_space_in_my_heap s"
    "chain (mem s2) (heap_base cfg) as" "lastp s2 = lastp s"
    "mem s2 (lastp s) = (mem s (lastp s))\<lparr>msize := msize (mem s (lastp s)) + (n + META cfg)\<rparr>"
    "\<forall>a\<in>set as. a \<noteq> lastp s \<longrightarrow> mem s2 a = mem s a"
    by blast
  with None show ?thesis by (intro exI [of _ p] exI [of _ s1] exI [of _ r] exI [of _ s2]) simp
next
  case (Some b)
  from find_decompose [OF Some] obtain pre post where as: "as = pre @ b # post"
    and fit: "fits (mem s) n b" "\<forall>a\<in>set pre. \<not> fits (mem s) n a" by blast
  from fo have ch: "chain (mem s) (heap_base cfg) (pre @ b # post)"
    and tail: "lastp s = last (pre @ b # post)" and nf: "\<not> first s"
    and lo: "laid_out cfg (mem s) (pre @ b # post)"
    by (simp_all add: formed_def shaped_def as)
  from sa have mp: "0 < META cfg" by (simp add: sane_def)
  from lo have "tiles cfg (mem s) (unat (heap_base cfg)) (pre @ b # post)"
    by (simp add: laid_out_def)
  then have ord: "sorted_wrt (<) (pre @ b # post)" using mp by (rule tiles_sorted)
  have pnz: "b + META cfg \<noteq> 0" by (rule payload_nonzero [OF lo sa]) simp
  from naf have naf': "no_adjacent_free (mem s) (pre @ b # post)" by (simp add: as)
  have "\<exists>s1 r s2. my_malloc cfg s n = ok (b + META cfg, s1) \<and>
      my_free cfg s1 (b + META cfg) = ok (r, s2) \<and>
      free_space_in_my_heap s2 = free_space_in_my_heap s \<and>
      chain (mem s2) (heap_base cfg) (pre @ b # post) \<and>
      (\<forall>a\<in>set (pre @ b # post). mem s2 a = mem s a) \<and> lastp s2 = lastp s"
  proof (cases "n + THRESHOLD cfg \<le> msize (mem s b)")
    case thr: True
    with served Some have room: "unat n + unat (META cfg) \<le> unat (msize (mem s b))" by simp
    from carve_inside [OF lo sa room refl]
    have place: "b < b + (META cfg + n)" "\<forall>a\<in>set post. b + (META cfg + n) < a" by simp_all
    show ?thesis by (rule round_trip_split [OF ch ord tail nf naf' n fit thr pnz place])
  next
    case thr: False
    with served Some have exact: "msize (mem s b) = n" by simp
    show ?thesis by (rule round_trip_exact [OF ch ord tail nf naf' n fit thr pnz exact])
  qed
  then obtain s1 r s2 where
    "my_malloc cfg s n = ok (b + META cfg, s1)" "my_free cfg s1 (b + META cfg) = ok (r, s2)"
    "free_space_in_my_heap s2 = free_space_in_my_heap s"
    "chain (mem s2) (heap_base cfg) as" "lastp s2 = lastp s"
    "\<forall>a\<in>set as. mem s2 a = mem s a"
    unfolding as by blast
  with Some show ?thesis
    by (intro exI [of _ "b + META cfg"] exI [of _ s1] exI [of _ r] exI [of _ s2]) simp
qed

theorem malloc_free_round_trip_witness:
  "(\<exists>s1 r s2. my_malloc cfg_ex st_one_free 10 = ok (4244, s1) \<and>
      my_free cfg_ex s1 4244 = ok (r, s2) \<and>
      free_space_in_my_heap s2 = 818 \<and> free_space_in_my_heap st_one_free = 818 \<and>
      mem s2 4096 = mem st_one_free 4096 \<and> mem s2 4220 = mem st_one_free 4220 \<and>
      mem s2 4294 = mem st_one_free 4294) \<and>
   (\<exists>p s1 r s2. my_malloc cfg_ex st_free_tail 60 = ok (p, s1) \<and>
      my_free cfg_ex s1 p = ok (r, s2) \<and>
      free_space_in_my_heap s2 = 852 \<and> free_space_in_my_heap st_free_tail = 852 \<and>
      mem s2 4096 = mem st_free_tail 4096 \<and>
      mem s2 4220 = \<lparr>msize = 134, mfree = True, mnext = 0\<rparr>)"
proof -
  have sa: "sane cfg_ex" by (simp add: sane_def arena_end_def cfg_ex_def)
  have fo1: "formed cfg_ex st_one_free [4096, 4220, 4294]"
    by (simp add: formed_def shaped_def laid_out_def block_end_def arena_end_def
        st_one_free_def cfg_ex_def)
  have find1: "List.find (fits (mem st_one_free) 10) [4096, 4220, 4294] = Some 4220"
    by (simp add: st_one_free_def fits_def)
  have g1: "no_adjacent_free (mem st_one_free) [4096, 4220, 4294]" "(10 :: size_t) \<noteq> 0"
    by (simp_all add: st_one_free_def)
  have h1: "case List.find (fits (mem st_one_free) 10) [4096, 4220, 4294] of
         Some b \<Rightarrow>
           (10 + THRESHOLD cfg_ex \<le> msize (mem st_one_free b) \<and>
              unat (10 :: size_t) + unat (META cfg_ex) \<le> unat (msize (mem st_one_free b)))
           \<or> (\<not> 10 + THRESHOLD cfg_ex \<le> msize (mem st_one_free b) \<and> msize (mem st_one_free b) = 10)
       | None \<Rightarrow>
           mfree (mem st_one_free (lastp st_one_free)) \<and>
           block_end cfg_ex (mem st_one_free) (lastp st_one_free) + unat (META cfg_ex) + unat (10 :: size_t)
             \<le> arena_end cfg_ex"
    unfolding find1 by (simp add: st_one_free_def cfg_ex_def)
  from malloc_free_round_trip [OF fo1 sa g1 h1] obtain p s1 r s2 where
    "my_malloc cfg_ex st_one_free 10 = ok (p, s1)" "my_free cfg_ex s1 p = ok (r, s2)"
    "free_space_in_my_heap s2 = free_space_in_my_heap st_one_free"
    "\<forall>a\<in>set [4096, 4220, 4294]. mem s2 a =
         (if a = lastp st_one_free \<and> Some 4220 = (None :: addr option)
          then (mem st_one_free a)\<lparr>msize := msize (mem st_one_free a) + (10 + META cfg_ex)\<rparr>
          else mem st_one_free a)"
    "\<forall>b. Some 4220 = Some b \<longrightarrow> p = b + META cfg_ex"
    unfolding find1 by blast
  then have "my_malloc cfg_ex st_one_free 10 = ok (4244, s1) \<and>
      my_free cfg_ex s1 4244 = ok (r, s2) \<and>
      free_space_in_my_heap s2 = 818 \<and> free_space_in_my_heap st_one_free = 818 \<and>
      mem s2 4096 = mem st_one_free 4096 \<and> mem s2 4220 = mem st_one_free 4220 \<and>
      mem s2 4294 = mem st_one_free 4294"
    by (simp add: cfg_ex_def st_one_free_def free_space_in_my_heap_def)
  then have one: "\<exists>s1 r s2. my_malloc cfg_ex st_one_free 10 = ok (4244, s1) \<and>
      my_free cfg_ex s1 4244 = ok (r, s2) \<and>
      free_space_in_my_heap s2 = 818 \<and> free_space_in_my_heap st_one_free = 818 \<and>
      mem s2 4096 = mem st_one_free 4096 \<and> mem s2 4220 = mem st_one_free 4220 \<and>
      mem s2 4294 = mem st_one_free 4294" by blast
  have fo2: "formed cfg_ex st_free_tail [4096, 4220]"
    by (simp add: formed_def shaped_def laid_out_def block_end_def arena_end_def
        st_free_tail_def cfg_ex_def)
  have find2: "List.find (fits (mem st_free_tail) 60) [4096, 4220] = None"
    by (simp add: st_free_tail_def fits_def)
  have g2: "no_adjacent_free (mem st_free_tail) [4096, 4220]" "(60 :: size_t) \<noteq> 0"
    by (simp_all add: st_free_tail_def)
  have h2: "case List.find (fits (mem st_free_tail) 60) [4096, 4220] of
         Some b \<Rightarrow>
           (60 + THRESHOLD cfg_ex \<le> msize (mem st_free_tail b) \<and>
              unat (60 :: size_t) + unat (META cfg_ex) \<le> unat (msize (mem st_free_tail b)))
           \<or> (\<not> 60 + THRESHOLD cfg_ex \<le> msize (mem st_free_tail b) \<and> msize (mem st_free_tail b) = 60)
       | None \<Rightarrow>
           mfree (mem st_free_tail (lastp st_free_tail)) \<and>
           block_end cfg_ex (mem st_free_tail) (lastp st_free_tail) + unat (META cfg_ex) + unat (60 :: size_t)
             \<le> arena_end cfg_ex"
    unfolding find2 by (simp add: st_free_tail_def cfg_ex_def block_end_def arena_end_def)
  from malloc_free_round_trip [OF fo2 sa g2 h2] obtain p s1 r s2 where
    "my_malloc cfg_ex st_free_tail 60 = ok (p, s1)" "my_free cfg_ex s1 p = ok (r, s2)"
    "free_space_in_my_heap s2 = free_space_in_my_heap st_free_tail"
    "\<forall>a\<in>set [4096, 4220]. mem s2 a =
         (if a = lastp st_free_tail \<and> (None :: addr option) = None
          then (mem st_free_tail a)\<lparr>msize := msize (mem st_free_tail a) + (60 + META cfg_ex)\<rparr>
          else mem st_free_tail a)"
    unfolding find2 by blast
  then have "my_malloc cfg_ex st_free_tail 60 = ok (p, s1) \<and>
      my_free cfg_ex s1 p = ok (r, s2) \<and>
      free_space_in_my_heap s2 = 852 \<and> free_space_in_my_heap st_free_tail = 852 \<and>
      mem s2 4096 = mem st_free_tail 4096 \<and>
      mem s2 4220 = \<lparr>msize = 134, mfree = True, mnext = 0\<rparr>"
    by (simp add: cfg_ex_def st_free_tail_def free_space_in_my_heap_def)
  then have two: "\<exists>p s1 r s2. my_malloc cfg_ex st_free_tail 60 = ok (p, s1) \<and>
      my_free cfg_ex s1 p = ok (r, s2) \<and>
      free_space_in_my_heap s2 = 852 \<and> free_space_in_my_heap st_free_tail = 852 \<and>
      mem s2 4096 = mem st_free_tail 4096 \<and>
      mem s2 4220 = \<lparr>msize = 134, mfree = True, mnext = 0\<rparr>" by blast
  from one two show ?thesis by blast
qed

text \<open>
  Claim C5 as stated fails in three kinds of state. For the first allocation, the header
  placed for it stays in the chain after the release: in the fresh arena the counter is
  1000, and after \<^verbatim>\<open>my_malloc(100)\<close> and \<^verbatim>\<open>my_free\<close> of its result it is 976, one header
  short. The same happens to a block placed behind an allocated tail block: in
  \<open>st_one_free\<close> no block fits 60 bytes, and the counter goes from 818 to 794. In
  \<open>st_adj\<close>, where two free blocks are neighbours, the release also fuses those two and the
  counter goes from 874 to 898, one header up.
\<close>

theorem round_trip_first_allocation_counterexample:
  "free_space_in_my_heap (init cfg_ex) = 1000 \<and>
   bindR (my_malloc cfg_ex (init cfg_ex) 100) (\<lambda>(p, s1).
     bindR (my_free cfg_ex s1 p) (\<lambda>(r, s2). ok (p, r, free_space_in_my_heap s2)))
   = ok (4120, FreeFor 100, 976) \<and>
   free_space_in_my_heap st_one_free = 818 \<and>
   bindR (my_malloc cfg_ex st_one_free 60) (\<lambda>(p, s1).
     bindR (my_free cfg_ex s1 p) (\<lambda>(r, s2). ok (p, r, free_space_in_my_heap s2)))
   = ok (4352, FreeFor 60, 794) \<and>
   free_space_in_my_heap st_adj = 874 \<and>
   bindR (my_malloc cfg_ex st_adj 10) (\<lambda>(p, s1).
     bindR (my_free cfg_ex s1 p) (\<lambda>(r, s2). ok (p, r, free_space_in_my_heap s2)))
   = ok (4164, FreeFor 10, 898)"
  by (simp add: run_simps st_one_free_def st_adj_def)

end
